theory Spec2Isabelle
  imports Main
begin

text \<open>
  A shallow embedding of \<open>functions.js\<close>: the token-bounded grouping of subtitle
  segments, the translation client, the verification of the model's answer with its retries,
  the batch job manager and the end of \<open>translatePath\<close>. The tokenizer, the remote API,
  whose answers may change from one call to the next, and the random number generator are
  parameters. Token counts and array lengths are naturals, the attempt counter is an
  integer. A call that never returns has the value \<open>None\<close>.
\<close>

section \<open>Strings\<close>

text \<open>A string is the list of its UTF-16 code units, which is what \<open>length\<close>, \<open>slice\<close>,
  \<open>padEnd\<close>, \<open>split\<close>, \<open>trim\<close> and a regular expression without the \<open>u\<close> flag work
  on. A code unit is a natural number, below 65536 in every string of the program; no
  definition relies on that bound.\<close>

type_synonym jstring = "nat list"

text \<open>The code units of a text written in 8-bit characters, for the literals.\<close>

definition js :: "char list \<Rightarrow> jstring" where
  "js text = map of_char text"

text \<open>The decimal rendering that a template literal gives a non-negative integer:
  \<open>0x30\<close> is the digit zero.\<close>

fun show_nat :: "nat \<Rightarrow> jstring" where
  "show_nat n = (if n < 10 then [0x30 + n] else show_nat (n div 10) @ [0x30 + n mod 10])"

declare show_nat.simps [simp del]

text \<open>\<open>xs.join(sep)\<close>.\<close>

fun join :: "jstring \<Rightarrow> jstring list \<Rightarrow> jstring" where
  "join sep [] = []"
| "join sep [x] = x"
| "join sep (x # y # ys) = x @ sep @ join sep (y # ys)"

text \<open>\<open>s.split(c)\<close> for a separator of one code unit: never an empty array.\<close>

fun split_on :: "nat \<Rightarrow> jstring \<Rightarrow> jstring list" where
  "split_on c [] = [[]]"
| "split_on c (x # xs) =
     (if x = c then [] # split_on c xs
      else (case split_on c xs of
              [] \<Rightarrow> [[x]]
            | piece # pieces \<Rightarrow> (x # piece) # pieces))"

text \<open>What \<open>trim\<close> removes, the white space and the line terminators of the language: tab,
  line feed, vertical tab, form feed, carriage return, space, no-break space (\<open>U+00A0\<close>),
  the other space separators (\<open>U+1680\<close>, \<open>U+2000\<close> to \<open>U+200A\<close>, \<open>U+202F\<close>, \<open>U+205F\<close>,
  \<open>U+3000\<close>), line and paragraph separator (\<open>U+2028\<close>, \<open>U+2029\<close>) and the byte order mark
  (\<open>U+FEFF\<close>). Each is a single code unit.\<close>

definition is_space :: "nat \<Rightarrow> bool" where
  "is_space u \<longleftrightarrow>
     u \<in> set [0x09, 0x0A, 0x0B, 0x0C, 0x0D, 0x20, 0xA0, 0x1680, 0x2028, 0x2029, 0x202F, 0x205F,
              0x3000, 0xFEFF]
     \<or> (0x2000 \<le> u \<and> u \<le> 0x200A)"

definition trim :: "jstring \<Rightarrow> jstring" where
  "trim s = rev (dropWhile is_space (rev (dropWhile is_space s)))"

text \<open>The class \<open>\d\<close>: the ten digits from \<open>0x30\<close> to \<open>0x39\<close>.\<close>

definition is_digit :: "nat \<Rightarrow> bool" where
  "is_digit u \<longleftrightarrow> 0x30 \<le> u \<and> u \<le> 0x39"

text \<open>\<open>s.replace(/^(\d+)\. /, '')\<close>: a leading run of digits followed by a dot (\<open>0x2E\<close>)
  and a space (\<open>0x20\<close>) is removed. The run is greedy, and giving a digit back cannot help
  the match, since the code unit after the run has to be the dot.\<close>

definition strip_ordinal :: "jstring \<Rightarrow> jstring" where
  "strip_ordinal s =
     (let digits = takeWhile is_digit s; rest = dropWhile is_digit s in
      if digits \<noteq> [] \<and> take 2 rest = [0x2E, 0x20] then drop 2 rest else s)"

text \<open>\<open>xs[i]\<close>, which is \<open>undefined\<close> out of range.\<close>

definition nth_opt :: "'a list \<Rightarrow> nat \<Rightarrow> 'a option" where
  "nth_opt xs i = (if i < length xs then Some (xs ! i) else None)"

text \<open>\<open>s.slice(0, 50).padEnd(50, ' ')\<close>.\<close>

definition pad50 :: "jstring \<Rightarrow> jstring" where
  "pad50 s = take 50 s @ replicate (50 - length (take 50 s)) 0x20"

section \<open>Data model\<close>

text \<open>A subtitle segment: the object literal \<open>{header, content}\<close> built by the extraction
  loop, to which \<open>translate\<close> later adds \<open>translatedContent\<close> (absent until then).\<close>

record segment =
  header :: jstring
  content :: jstring
  translatedContent :: "jstring option"

section \<open>Token-bounded grouping (functions.js, groupSegmentsByTokenLength)\<close>

text \<open>The \<open>for\<close> loop of \<open>groupSegmentsByTokenLength\<close>. The loop state is
  \<open>groups\<close>, \<open>currentGroup\<close> and \<open>currentGroupTokenCount\<close>; \<open>numTokens\<close> is the
  tokenizer of the configured model (the length of \<open>encoder.encode(text)\<close>), taken as a
  parameter, and \<open>len\<close> is the \<open>length\<close> argument, the token budget, as an integer. The
  caller passes the environment string \<open>MAX_TOKENS\<close>, and line 70 compares with the number
  that it converts to. The counts compared are integers from zero up, so a budget with a
  fraction compares as its integer part; a string that converts to no number makes the
  comparison false for every segment, as a negative budget does, and an infinite one makes
  it true for every segment, as any budget does that is large enough for the input.\<close>

fun group_loop ::
  "(jstring \<Rightarrow> nat) \<Rightarrow> int \<Rightarrow> segment list \<Rightarrow> segment list list \<Rightarrow> segment list \<Rightarrow> int
     \<Rightarrow> segment list list \<times> segment list \<times> int" where
  "group_loop numTokens len [] groups currentGroup currentGroupTokenCount =
     (groups, currentGroup, currentGroupTokenCount)"
| "group_loop numTokens len (seg # segs) groups currentGroup currentGroupTokenCount =
     (let segmentTokenCount = int (numTokens (content seg)) in
      if currentGroupTokenCount + segmentTokenCount \<le> len
      then group_loop numTokens len segs groups (currentGroup @ [seg])
             (currentGroupTokenCount + segmentTokenCount + 4)
      else group_loop numTokens len segs (groups @ [currentGroup]) [seg] segmentTokenCount)"

definition groupSegmentsByTokenLength ::
  "(jstring \<Rightarrow> nat) \<Rightarrow> segment list \<Rightarrow> int \<Rightarrow> segment list list" where
  "groupSegmentsByTokenLength numTokens segments len =
     (case group_loop numTokens len segments [] [] 0 of
        (groups, currentGroup, currentGroupTokenCount) \<Rightarrow>
          if length currentGroup > 0 then groups @ [currentGroup] else groups)"

section \<open>Module state\<close>

text \<open>A request of a batch job: \<open>{content, id}\<close>, to which \<open>checkBatchStatus\<close> adds
  \<open>result\<close>. The fields \<open>content\<close> and \<open>id\<close> are \<open>rcontent\<close> and \<open>rid\<close> here, the
  \<open>id\<close> of a job is \<open>job_id\<close>.\<close>

record request =
  rcontent :: jstring
  rid :: jstring
  result :: "jstring option"

text \<open>An entry of \<open>jobs\<close>: the batch object of the remote API (of which only \<open>id\<close> is read
  again) with the \<open>requests\<close> array; \<open>finished\<close> is absent, hence falsy, until set.\<close>

record job =
  job_id :: jstring
  finished :: bool
  requests :: "request list"

text \<open>An entry of \<open>toBatch\<close>. The body is the \<open>message\<close> object, whose only varying part is
  the user text.\<close>

record batch_item =
  custom_id :: jstring
  body_text :: jstring

text \<open>A line of the error corpus: the system prompt, the input and the output.\<close>

record error_record =
  er_prompt :: jstring
  er_input :: jstring
  er_output :: jstring

text \<open>The exceptions: a property read or written on \<open>undefined\<close>, a rejected request to
  the remote API, a line that \<open>JSON.parse\<close> refuses.\<close>

datatype error = TypeError | NetworkError | SyntaxError

text \<open>The lines written to the console, one constructor for each message of the source,
  with the values the message interpolates.\<close>

datatype console_msg =
    TranslationStopped jstring
  | TableRow jstring
  | LengthMismatchError nat nat
  | LengthMismatchRetry nat nat
  | FailedToTranslate error
  | SuccessfullyTranslated
  | Batching nat
  | SuccessfullyBatched nat
  | NoPendingJobs
  | CheckingJobs
  | ErrorFileLine jstring
  | JobCompleted jstring
  | JobFailed jstring
  | JobInProgress

text \<open>The requests made to the remote API.\<close>

datatype net_call =
    ChatCompletionsCreate jstring
  | FilesCreate "batch_item list"
  | BatchesCreate jstring
  | BatchesRetrieve jstring
  | FilesContent jstring

text \<open>\<open>choices[0]\<close> of a chat completion.\<close>

record completion =
  finish_reason :: jstring
  message_content :: "jstring option"

text \<open>A non-empty line of the output file of a batch, decoded: the value at
  \<open>response.body.choices[0].message.content\<close> (\<open>null\<close> is \<open>None\<close>), or a line on which
  that path does not exist.\<close>

datatype output_line = Content "jstring option" | Malformed

text \<open>What \<open>openai.batches.retrieve\<close> answers.\<close>

record remote_batch =
  status :: jstring
  output_file_id :: "jstring option"
  error_file_id :: jstring

text \<open>What line 185, \<open>number >= MAX_TRIES\<close>, compares the attempt counter with. Line 14
  takes \<open>MAX_TRIES\<close> from the environment as it is, a string or \<open>undefined\<close>, and the
  comparison converts it to a number: a finite one, or \<open>NaN\<close> for \<open>undefined\<close> (the variable
  is not set) and for a string that is no numeric literal, or an infinity. The counter is
  an integer, so it compares with a finite \<open>x\<close> as with the least integer from \<open>x\<close> up,
  which is the \<open>m\<close> of \<open>Finite m\<close>.\<close>

datatype limit = Finite int | NaN | PlusInfinity | MinusInfinity

text \<open>\<open>number >= MAX_TRIES\<close>: every comparison with \<open>NaN\<close> is false.\<close>

definition reached :: "int \<Rightarrow> limit \<Rightarrow> bool" where
  "reached number lim =
     (case lim of
        Finite m \<Rightarrow> number \<ge> m
      | NaN \<Rightarrow> False
      | PlusInfinity \<Rightarrow> False
      | MinusInfinity \<Rightarrow> True)"

text \<open>The configuration read at start-up and the world outside the process. The remote
  endpoints are functions of the number of network calls made so far and of their argument;
  \<open>None\<close>, or \<open>Inl\<close>, is a rejected promise. An output file is given by its non-empty
  lines, decoded (\<open>Inl\<close> also where \<open>JSON.parse\<close> throws on one of them), an error file by
  all its lines, each decoded to the text printed (\<open>None\<close> where \<open>JSON.parse\<close> throws on
  that line). \<open>MAX_TOKENS\<close> is the budget as line 70 compares with it.\<close>

record config =
  batch :: bool
  debug :: bool
  table :: bool
  wait :: bool
  MAX_TRIES :: limit
  MAX_TOKENS :: int
  prompt :: jstring
  numTokens :: "jstring \<Rightarrow> nat"
  random_id :: "nat \<Rightarrow> jstring"
  chat_completions_create :: "nat \<Rightarrow> jstring \<Rightarrow> completion option"
  files_create :: "nat \<Rightarrow> batch_item list \<Rightarrow> jstring option"
  batches_create :: "nat \<Rightarrow> jstring \<Rightarrow> jstring option"
  batches_retrieve :: "nat \<Rightarrow> jstring \<Rightarrow> remote_batch option"
  output_file_content :: "nat \<Rightarrow> jstring \<Rightarrow> error + output_line list"
  error_file_content :: "nat \<Rightarrow> jstring \<Rightarrow> error + jstring option list"

text \<open>The module-level variables \<open>jobs\<close>, \<open>toBatch\<close> and \<open>mostErrored\<close>, the files
  \<open>cache.json\<close> and \<open>most-errored.jsonl\<close> as last written, the subtitle files written,
  the console, the network calls made and the number of \<open>Math.random\<close> draws.\<close>

record state =
  jobs :: "job list"
  toBatch :: "batch_item list"
  mostErrored :: "error_record list"
  cache_file :: "job list"
  most_errored_file :: "error_record list"
  written :: "(jstring \<times> jstring) list"
  console :: "console_msg list"
  net_log :: "net_call list"
  random_draws :: nat

type_synonym 'a outcome = "(error \<times> state) + ('a \<times> state)"

section \<open>Translation client (functions.js, getTranslation)\<close>

definition has_request :: "jstring \<Rightarrow> job \<Rightarrow> bool" where
  "has_request text j \<longleftrightarrow> find (\<lambda>r. rcontent r = text) (requests j) \<noteq> None"

text \<open>The value is \<open>None\<close> where the source returns \<open>false\<close>, \<open>undefined\<close> or \<open>null\<close>.\<close>

definition getTranslation :: "config \<Rightarrow> state \<Rightarrow> jstring \<Rightarrow> (jstring option) outcome" where
  "getTranslation env s text =
     (if batch env then
        (case find (has_request text) (jobs s) of
           Some job \<Rightarrow>
             Inr (if finished job
                  then (case find (\<lambda>r. rcontent r = text) (requests job) of
                          Some r \<Rightarrow> result r
                        | None \<Rightarrow> None)
                  else None, s)
         | None \<Rightarrow>
             Inr (None, s\<lparr>toBatch := toBatch s @
                            [\<lparr>custom_id = random_id env (random_draws s), body_text = text\<rparr>],
                          random_draws := random_draws s + 1\<rparr>))
      else
        (let s1 = s\<lparr>net_log := net_log s @ [ChatCompletionsCreate text]\<rparr> in
         case chat_completions_create env (length (net_log s)) text of
           None \<Rightarrow> Inl (NetworkError, s1)
         | Some choice \<Rightarrow>
             if finish_reason choice \<noteq> js ''stop''
             then Inr (None, s1\<lparr>console := console s1 @ [TranslationStopped (finish_reason choice)]\<rparr>)
             else Inr (message_content choice, s1)))"

section \<open>Verification and retry (functions.js, translate)\<close>

text \<open>\<open>group.map(m => m.content).map((s, i) => `${i + 1}. ${s}`).join('\n')\<close>.\<close>

definition render_group :: "segment list \<Rightarrow> jstring" where
  "render_group grp =
     join [0x0A]
       (map (\<lambda>(i, s). show_nat (i + 1) @ [0x2E, 0x20] @ s) (enumerate 0 (map content grp)))"

text \<open>Lines 168 to 171: split on line feeds, trim each piece and strip its ordinal, then
  pop one trailing empty piece.\<close>

definition parse_response :: "jstring \<Rightarrow> jstring list" where
  "parse_response translated =
     (let split = map (\<lambda>piece. strip_ordinal (trim piece)) (split_on 0x0A translated) in
      if split \<noteq> [] \<and> last split = [] then butlast split else split)"

text \<open>Lines 154 to 164: push onto \<open>mostErrored\<close> and rewrite the corpus file.\<close>

definition log_most_errored :: "config \<Rightarrow> jstring \<Rightarrow> jstring \<Rightarrow> state \<Rightarrow> state" where
  "log_most_errored env text translated s =
     (let corpus = mostErrored s @
            [\<lparr>er_prompt = prompt env, er_input = text, er_output = translated\<rparr>] in
      s\<lparr>mostErrored := corpus, most_errored_file := corpus\<rparr>)"

text \<open>Lines 173 to 177: one console row per position that both arrays have.\<close>

definition print_table :: "jstring list \<Rightarrow> jstring list \<Rightarrow> state \<Rightarrow> state" where
  "print_table originalSplit split s =
     s\<lparr>console := console s @
          map (\<lambda>(a, b). TableRow (pad50 a @ (js '' | '') @ pad50 b)) (zip originalSplit split)\<rparr>"

text \<open>Lines 180 to 183, the batch-mode clean-up on a mismatch: the first job holding the
  text loses its requests with that text, a job left without requests is removed together
  with every job of the same id, and the cache file is rewritten. Where no job holds the
  text, \<open>job\<close> is \<open>undefined\<close> and reading \<open>job.requests\<close> throws.\<close>

definition drop_request :: "jstring \<Rightarrow> state \<Rightarrow> (error \<times> state) + state" where
  "drop_request text s =
     (case List.extract (has_request text) (jobs s) of
        None \<Rightarrow> Inl (TypeError, s)
      | Some (before, job, after) \<Rightarrow>
          (let job' = job\<lparr>requests := filter (\<lambda>r. rcontent r \<noteq> text) (requests job)\<rparr>;
               jobs1 = before @ job' # after;
               jobs2 = (if length (requests job') = 0
                        then filter (\<lambda>j. job_id j \<noteq> job_id job') jobs1 else jobs1)
           in Inr (s\<lparr>jobs := jobs2, cache_file := jobs2\<rparr>)))"

text \<open>Lines 195 to 197.\<close>

definition assign_translations :: "segment list \<Rightarrow> jstring list \<Rightarrow> segment list" where
  "assign_translations grp split =
     map (\<lambda>(i, groupMatch). groupMatch\<lparr>translatedContent := nth_opt split i\<rparr>) (enumerate 0 grp)"

text \<open>What one activation of \<open>translate\<close> comes to: it settles its promise, returning
  or throwing, or it reaches line 192 and calls \<open>translate\<close> again, in the state given.\<close>

datatype pass = Settles "(segment list \<times> bool) outcome" | CallsAgain state

text \<open>The body of \<open>translate(group, number)\<close>, lines 144 to 199, with \<open>grp\<close> for
  \<open>group\<close>. The segments of the group are mutated in place by the source; the model returns
  the group as the call leaves it, with the boolean returned. A falsy \<open>translated\<close> is
  \<open>None\<close> or the empty string.\<close>

definition translate_pass :: "config \<Rightarrow> state \<Rightarrow> segment list \<Rightarrow> int \<Rightarrow> pass" where
  "translate_pass env s grp number =
     (let text = render_group grp in
      case getTranslation env s text of
        Inl thrown \<Rightarrow> Settles (Inl thrown)
      | Inr (None, s1) \<Rightarrow> Settles (Inr ((grp, False), s1))
      | Inr (Some translated, s1) \<Rightarrow>
          if translated = [] then Settles (Inr ((grp, False), s1))
          else
            (let s2 = (if number > 3 then log_most_errored env text translated s1 else s1);
                 originalSplit = map content grp;
                 split = parse_response translated;
                 s3 = (if table env then print_table originalSplit split s2 else s2)
             in
             if length split \<noteq> length originalSplit then
               (case (if batch env then drop_request text s3 else Inr s3) of
                  Inl thrown \<Rightarrow> Settles (Inl thrown)
                | Inr s4 \<Rightarrow>
                    if reached number (MAX_TRIES env)
                    then Settles (Inr ((grp, False),
                              s4\<lparr>console := console s4 @
                                   [LengthMismatchError (length split) (length originalSplit)]\<rparr>))
                    else CallsAgain
                           (if debug env
                            then s4\<lparr>console := console s4 @
                                   [LengthMismatchRetry (length split) (length originalSplit)]\<rparr>
                            else s4))
             else Settles (Inr ((assign_translations grp split, True), s3))))"

text \<open>\<open>translate(group, number)\<close>: the body, and from line 192 the call
  \<open>translate(group, number + 1)\<close>, whose outcome is the outcome of the call. Nothing in the
  body bounds the recursion unless the counter reaches \<open>MAX_TRIES\<close>; the value is \<open>None\<close>
  where the calls go on for ever.\<close>

partial_function (option) translate ::
  "config \<Rightarrow> state \<Rightarrow> segment list \<Rightarrow> int \<Rightarrow> (segment list \<times> bool) outcome option" where
  "translate env s grp number =
     (case translate_pass env s grp number of
        Settles r \<Rightarrow> Some r
      | CallsAgain s' \<Rightarrow> translate env s' grp (number + 1))"

section \<open>Batch job manager (functions.js, batchTranslations, checkBatchStatus, pendingJobs)\<close>

text \<open>\<open>batchTranslations()\<close>. The temporary file it writes is read back by the upload alone
  and is left out. The new job is the batch object answered by the remote API, of which the
  model keeps the \<open>id\<close>, with one request per queued item.\<close>

definition batchTranslations :: "config \<Rightarrow> state \<Rightarrow> unit outcome" where
  "batchTranslations env s =
     (if length (toBatch s) > 0 then
        (let s1 = s\<lparr>console := console s @ [Batching (length (toBatch s))]\<rparr>;
             s2 = s1\<lparr>net_log := net_log s1 @ [FilesCreate (toBatch s)]\<rparr>
         in case files_create env (length (net_log s1)) (toBatch s) of
              None \<Rightarrow> Inl (NetworkError, s2)
            | Some file_id \<Rightarrow>
                (let s3 = s2\<lparr>net_log := net_log s2 @ [BatchesCreate file_id]\<rparr>
                 in case batches_create env (length (net_log s2)) file_id of
                      None \<Rightarrow> Inl (NetworkError, s3)
                    | Some batch_id \<Rightarrow>
                        (let jobs' = jobs s3 @
                               [\<lparr>job_id = batch_id, finished = False,
                                 requests = map (\<lambda>b. \<lparr>rcontent = body_text b, rid = batch_id,
                                                        result = None\<rparr>) (toBatch s)\<rparr>];
                             s4 = s3\<lparr>jobs := jobs', cache_file := jobs'\<rparr>;
                             s5 = (if \<not> wait env
                                   then s4\<lparr>console := console s4 @
                                          [SuccessfullyBatched (length (toBatch s))]\<rparr>
                                   else s4)
                         in Inr ((), s5\<lparr>toBatch := []\<rparr>))))
      else Inr ((), s\<lparr>toBatch := []\<rparr>))"

definition pendingJobs :: "state \<Rightarrow> job list" where
  "pendingJobs s = filter (\<lambda>j. \<not> finished j) (jobs s)"

text \<open>Lines 458 to 461: each line of the error file is parsed, then printed.\<close>

fun print_error_lines :: "jstring option list \<Rightarrow> state \<Rightarrow> (error \<times> state) + state" where
  "print_error_lines [] s = Inr s"
| "print_error_lines (line # lines) s =
     (case line of
        None \<Rightarrow> Inl (SyntaxError, s)
      | Some message \<Rightarrow>
          print_error_lines lines (s\<lparr>console := console s @ [ErrorFileLine message]\<rparr>))"

text \<open>Lines 467 to 469: \<open>job.requests[i].result = message.response.body...content\<close> for the
  messages in order, from position \<open>i\<close>. The boolean is false where the assignment throws:
  on a message without that path, or beyond the last request. The requests assigned before
  keep their result.\<close>

fun assign_results :: "request list \<Rightarrow> nat \<Rightarrow> output_line list \<Rightarrow> request list \<times> bool" where
  "assign_results reqs i [] = (reqs, True)"
| "assign_results reqs i (message # messages) =
     (case message of
        Malformed \<Rightarrow> (reqs, False)
      | Content c \<Rightarrow>
          if i < length reqs
          then assign_results (reqs[i := (reqs ! i)\<lparr>result := c\<rparr>]) (Suc i) messages
          else (reqs, False))"

text \<open>The loop of \<open>checkBatchStatus\<close> runs over a copy of \<open>jobs\<close> made at its start, while
  its body replaces \<open>jobs\<close> by filtered arrays and mutates the job at hand, an object that
  the copy and \<open>jobs\<close> share. The model keeps \<open>jobs\<close> aligned with the copy: position \<open>i\<close>
  holds the job that the copy has at \<open>i\<close>, or \<open>None\<close> once a filter has removed it.\<close>

definition remove_id :: "jstring \<Rightarrow> job option list \<Rightarrow> job option list" where
  "remove_id jid cur =
     map (\<lambda>entry. case entry of
                     None \<Rightarrow> None
                   | Some j \<Rightarrow> if job_id j \<noteq> jid then Some j else None) cur"

definition mutate_at :: "nat \<Rightarrow> job \<Rightarrow> job option list \<Rightarrow> job option list" where
  "mutate_at i job' cur = (if i < length cur \<and> cur ! i \<noteq> None then cur[i := Some job'] else cur)"

definition current_jobs :: "job option list \<Rightarrow> job list" where
  "current_jobs cur = List.map_filter (\<lambda>entry. entry) cur"

text \<open>One iteration of the loop, for the job at position \<open>i\<close> of the copy.\<close>

definition poll_job ::
  "config \<Rightarrow> nat \<Rightarrow> job \<Rightarrow> job option list \<times> state
     \<Rightarrow> (error \<times> job option list \<times> state) + (job option list \<times> state)" where
  "poll_job env i job cs =
     (case cs of (cur, s) \<Rightarrow>
      if finished job then Inr (cur, s)
      else
        (let s1 = s\<lparr>net_log := net_log s @ [BatchesRetrieve (job_id job)]\<rparr> in
         case batches_retrieve env (length (net_log s)) (job_id job) of
           None \<Rightarrow> Inl (NetworkError, cur, s1)
         | Some b \<Rightarrow>
             if status b = js ''completed'' then
               (case output_file_id b of
                  None \<Rightarrow>
                    (let s2 = s1\<lparr>net_log := net_log s1 @ [FilesContent (error_file_id b)]\<rparr> in
                     case error_file_content env (length (net_log s1)) (error_file_id b) of
                       Inl thrown \<Rightarrow> Inl (thrown, cur, s2)
                     | Inr lines \<Rightarrow>
                         (case print_error_lines lines s2 of
                            Inl (thrown, s3) \<Rightarrow> Inl (thrown, cur, s3)
                          | Inr s3 \<Rightarrow> Inr (remove_id (job_id job) cur, s3)))
                | Some file_id \<Rightarrow>
                    (let s2 = s1\<lparr>net_log := net_log s1 @ [FilesContent file_id]\<rparr> in
                     case output_file_content env (length (net_log s1)) file_id of
                       Inl thrown \<Rightarrow> Inl (thrown, cur, s2)
                     | Inr messages \<Rightarrow>
                         (case assign_results (requests job) 0 messages of
                            (reqs, False) \<Rightarrow>
                              Inl (TypeError, mutate_at i (job\<lparr>requests := reqs\<rparr>) cur, s2)
                          | (reqs, True) \<Rightarrow>
                              Inr (mutate_at i (job\<lparr>requests := reqs, finished := True\<rparr>) cur,
                                   s2\<lparr>console := console s2 @ [JobCompleted (job_id job)]\<rparr>))))
             else if status b = js ''failed'' then
               Inr (remove_id (job_id job) cur,
                    s1\<lparr>console := console s1 @ [JobFailed (job_id job)]\<rparr>)
             else Inr (cur, s1\<lparr>console := console s1 @ [JobInProgress]\<rparr>)))"

fun poll_loop ::
  "config \<Rightarrow> nat \<Rightarrow> job list \<Rightarrow> job option list \<times> state
     \<Rightarrow> (error \<times> job option list \<times> state) + (job option list \<times> state)" where
  "poll_loop env i [] cs = Inr cs"
| "poll_loop env i (job # rest) cs =
     (case poll_job env i job cs of
        Inl thrown \<Rightarrow> Inl thrown
      | Inr cs' \<Rightarrow> poll_loop env (Suc i) rest cs')"

text \<open>\<open>checkBatchStatus()\<close>. The cache file is written after the loop, so not when the loop
  throws.\<close>

definition checkBatchStatus :: "config \<Rightarrow> state \<Rightarrow> unit outcome" where
  "checkBatchStatus env s =
     (if length (pendingJobs s) = 0
      then Inr ((), s\<lparr>console := console s @ [NoPendingJobs]\<rparr>)
      else
        (case poll_loop env 0 (jobs s)
                (map Some (jobs s), s\<lparr>console := console s @ [CheckingJobs]\<rparr>) of
           Inl (thrown, cur, s') \<Rightarrow> Inl (thrown, s'\<lparr>jobs := current_jobs cur\<rparr>)
         | Inr (cur, s') \<Rightarrow>
             Inr ((), s'\<lparr>jobs := current_jobs cur, cache_file := current_jobs cur\<rparr>)))"

section \<open>File-level driver (functions.js, translatePath, from line 385)\<close>

text \<open>A property value is truthy when it is present and not the empty string.\<close>

definition truthy :: "jstring option \<Rightarrow> bool" where
  "truthy v \<longleftrightarrow> (case v of None \<Rightarrow> False | Some text \<Rightarrow> text \<noteq> [])"

text \<open>Lines 387 to 394 run the calls \<open>translate(group, 0)\<close> in windows of ten and wait for
  each window with \<open>Promise.all\<close>, so the calls of a window overlap: each gets as far as
  its \<open>await\<close>, having sent its first request in direct mode, before any of them goes on,
  and in direct mode they go on in the order in which the answers arrive. The model runs
  the calls one after the other, in the order of the groups, and ends at the first
  exception, with the groups as they are then, or with \<open>None\<close> at a call that never
  returns; it is that one schedule, not the overlap. What is proved of \<open>translatePath\<close>
  below rests on two facts that no schedule changes: no activation of \<open>translate\<close> writes
  a subtitle file, from whatever state it starts, and the decision of lines 397 to 406 is
  taken after the last window, on the segments as they are then.\<close>

fun translate_groups ::
  "config \<Rightarrow> state \<Rightarrow> segment list list
     \<Rightarrow> ((error option \<times> segment list list) \<times> state) option" where
  "translate_groups env s [] = Some ((None, []), s)"
| "translate_groups env s (grp # groups) =
     (case translate env s grp 0 of
        None \<Rightarrow> None
      | Some (Inl (thrown, s1)) \<Rightarrow> Some ((Some thrown, grp # groups), s1)
      | Some (Inr ((grp', ok), s1)) \<Rightarrow>
          (case translate_groups env s1 groups of
             None \<Rightarrow> None
           | Some ((thrown, groups'), s2) \<Rightarrow> Some ((thrown, grp' # groups'), s2)))"

text \<open>Line 400: \<open>matches.map(m => m.header + m.translatedContent).join('\n\n')\<close>. The
  concatenation renders an absent \<open>translatedContent\<close> as the word \<open>undefined\<close>.\<close>

definition render_subtitles :: "segment list \<Rightarrow> jstring" where
  "render_subtitles matches =
     join [0x0A, 0x0A]
       (map (\<lambda>m. header m @ (case translatedContent m of
                                 None \<Rightarrow> (js ''undefined'')
                               | Some text \<Rightarrow> text)) matches)"

text \<open>Lines 397 to 406, on the segments as the windows left them: the value is what
  \<open>translatePath\<close> returns.\<close>

definition write_translation :: "jstring \<Rightarrow> segment list \<Rightarrow> state \<Rightarrow> bool \<times> state" where
  "write_translation outputPath matches s =
     (if list_all (\<lambda>m. truthy (translatedContent m)) matches
      then (False, s\<lparr>written := written s @ [(outputPath, render_subtitles matches)],
                     console := console s @ [SuccessfullyTranslated]\<rparr>)
      else (True, s))"

text \<open>\<open>translatePath\<close> from line 385 on, for the \<open>matches\<close> extracted from the subtitle file
  and the path \<open>outputPath\<close> of the translated file. The groups hold the very objects of
  \<open>matches\<close>, in the order of \<open>matches\<close>, so after the calls \<open>matches\<close> is the concatenation
  of the groups as \<open>translate\<close> left them. The value is what the source returns
  (\<open>None\<close> for \<open>undefined\<close>) with \<open>matches\<close> as the call leaves it.\<close>

definition translatePath ::
  "config \<Rightarrow> state \<Rightarrow> segment list \<Rightarrow> jstring
     \<Rightarrow> ((bool option \<times> segment list) \<times> state) option" where
  "translatePath env s matches outputPath =
     (let groups = groupSegmentsByTokenLength (numTokens env) matches (MAX_TOKENS env) in
      case translate_groups env s groups of
        None \<Rightarrow> None
      | Some ((Some thrown, groups'), s1) \<Rightarrow>
          Some ((None, concat groups'), s1\<lparr>console := console s1 @ [FailedToTranslate thrown]\<rparr>)
      | Some ((None, groups'), s1) \<Rightarrow>
          (case write_translation outputPath (concat groups') s1 of
             (ret, s2) \<Rightarrow> Some ((Some ret, concat groups'), s2)))"

section \<open>Notions used by the properties\<close>

text \<open>The token counts of a group added up; the same with the four tokens of the delimiter
  for every segment, the cost as the claim words it; and with the four tokens for every
  segment but the first, the delimiters between the segments.\<close>

definition token_sum :: "(jstring \<Rightarrow> nat) \<Rightarrow> segment list \<Rightarrow> int" where
  "token_sum nt g = sum_list (map (\<lambda>seg. int (nt (content seg))) g)"

definition estimated_cost :: "(jstring \<Rightarrow> nat) \<Rightarrow> segment list \<Rightarrow> int" where
  "estimated_cost nt g = token_sum nt g + 4 * int (length g)"

definition inter_segment_cost :: "(jstring \<Rightarrow> nat) \<Rightarrow> segment list \<Rightarrow> int" where
  "inter_segment_cost nt g = token_sum nt g + 4 * (int (length g) - 1)"

text \<open>The state a call ends in, whether it returns or throws, and the state in which an
  activation of \<open>translate\<close> settles or calls again.\<close>

definition outcome_state :: "'a outcome \<Rightarrow> state" where
  "outcome_state r = (case r of Inl (thrown, s) \<Rightarrow> s | Inr (v, s) \<Rightarrow> s)"

definition pass_state :: "pass \<Rightarrow> state" where
  "pass_state p = (case p of Settles r \<Rightarrow> outcome_state r | CallsAgain s \<Rightarrow> s)"

text \<open>The state in which line 178 compares the two lengths: after the corpus entry of lines
  153 to 165 and the table of lines 173 to 177.\<close>

definition state_at_check :: "config \<Rightarrow> segment list \<Rightarrow> int \<Rightarrow> jstring \<Rightarrow> state \<Rightarrow> state" where
  "state_at_check env grp number translated s1 =
     (let s2 = (if number > 3 then log_most_errored env (render_group grp) translated s1 else s1)
      in if table env
         then print_table (map content grp) (parse_response translated) s2 else s2)"

text \<open>The state after lines 179 to 184 of a mismatching attempt.\<close>

definition mismatch_cleanup ::
  "config \<Rightarrow> segment list \<Rightarrow> int \<Rightarrow> jstring \<Rightarrow> state \<Rightarrow> (error \<times> state) + state" where
  "mismatch_cleanup env grp number translated s1 =
     (if batch env
      then drop_request (render_group grp) (state_at_check env grp number translated s1)
      else Inr (state_at_check env grp number translated s1))"

text \<open>The state in which line 192 calls \<open>translate(group, number + 1)\<close>.\<close>

definition retry_state ::
  "config \<Rightarrow> segment list \<Rightarrow> int \<Rightarrow> jstring \<Rightarrow> state \<Rightarrow> (error \<times> state) + state" where
  "retry_state env grp number translated s1 =
     (case mismatch_cleanup env grp number translated s1 of
        Inl thrown \<Rightarrow> Inl thrown
      | Inr s4 \<Rightarrow>
          Inr (if debug env
               then s4\<lparr>console := console s4 @
                      [LengthMismatchRetry (length (parse_response translated)) (length grp)]\<rparr>
               else s4))"

text \<open>The attempts of \<open>translate env s grp number\<close> obtain the texts \<open>answers\<close>, one after
  the other, and each of them, parsed, has a number of fragments other than the number of
  segments; the last of them is obtained by the attempt at which the counter has reached
  \<open>MAX_TRIES\<close>, and no attempt before that one has.\<close>

fun mismatching_attempts ::
  "config \<Rightarrow> state \<Rightarrow> segment list \<Rightarrow> int \<Rightarrow> jstring list \<Rightarrow> bool" where
  "mismatching_attempts env s grp number [] = False"
| "mismatching_attempts env s grp number (answer # later) =
     (case getTranslation env s (render_group grp) of
        Inl thrown \<Rightarrow> False
      | Inr (None, s1) \<Rightarrow> False
      | Inr (Some translated, s1) \<Rightarrow>
          translated = answer \<and> answer \<noteq> [] \<and> length (parse_response answer) \<noteq> length grp \<and>
          (if reached number (MAX_TRIES env) then later = []
           else (case retry_state env grp number answer s1 of
                   Inl thrown \<Rightarrow> False
                 | Inr s' \<Rightarrow> mismatching_attempts env s' grp (number + 1) later)))"

text \<open>What one activation of \<open>translate\<close>, started in \<open>s\<close>, has done to the error corpus, to
  the network log and to the subtitle files written when it settles or calls \<open>translate\<close>
  again, in \<open>s'\<close>: it has sent the text of the whole group, once or not at all.\<close>

definition pass_effect :: "config \<Rightarrow> segment list \<Rightarrow> int \<Rightarrow> state \<Rightarrow> state \<Rightarrow> bool" where
  "pass_effect env grp number s s' \<longleftrightarrow>
     (\<exists>more. mostErrored s' = mostErrored s @ more)
     \<and> (3 < number \<longrightarrow> most_errored_file s = mostErrored s
           \<longrightarrow> most_errored_file s' = mostErrored s')
     \<and> (net_log s' = net_log s
          \<or> net_log s' = net_log s @ [ChatCompletionsCreate (render_group grp)])
     \<and> written s' = written s
     \<and> (\<forall>translated s1.
           getTranslation env s (render_group grp) = Inr (Some translated, s1)
           \<longrightarrow> translated \<noteq> [] \<longrightarrow> 3 < number \<longrightarrow>
           mostErrored s' = mostErrored s @
               [\<lparr>er_prompt = prompt env, er_input = render_group grp, er_output = translated\<rparr>]
           \<and> most_errored_file s' = mostErrored s')"

text \<open>The requests of a job with the results of an output file, position by position.\<close>

definition with_results :: "request list \<Rightarrow> jstring option list \<Rightarrow> request list" where
  "with_results reqs results = map (\<lambda>(r, c). r\<lparr>result := c\<rparr>) (zip reqs results)"

text \<open>The state an iteration, or the loop, of \<open>checkBatchStatus\<close> ends in.\<close>

definition poll_state ::
  "(error \<times> job option list \<times> state) + (job option list \<times> state) \<Rightarrow> state" where
  "poll_state r = (case r of Inl (thrown, cur, s) \<Rightarrow> s | Inr (cur, s) \<Rightarrow> s)"

text \<open>\<open>jobs\<close>, aligned with the copy, as an iteration or the loop leaves it.\<close>

definition poll_cur ::
  "(error \<times> job option list \<times> state) + (job option list \<times> state) \<Rightarrow> job option list" where
  "poll_cur r = (case r of Inl (thrown, cur, s) \<Rightarrow> cur | Inr (cur, s) \<Rightarrow> cur)"

text \<open>\<open>jobs\<close> during the loop keeps to the copy: same length, and a job still present has
  the id the copy has at its position and is finished if the job of the copy is.\<close>

definition aligned :: "job list \<Rightarrow> job option list \<Rightarrow> bool" where
  "aligned snapshot cur \<longleftrightarrow>
     length cur = length snapshot
     \<and> (\<forall>k < length snapshot. \<forall>j. cur ! k = Some j \<longrightarrow>
           job_id j = job_id (snapshot ! k) \<and> (finished (snapshot ! k) \<longrightarrow> finished j))"

text \<open>Poll cycles one after the other, each against its own answers of the remote API,
  whether they run to their end or throw.\<close>

fun poll_cycles :: "config list \<Rightarrow> state \<Rightarrow> state" where
  "poll_cycles [] s = s"
| "poll_cycles (env # envs) s = poll_cycles envs (outcome_state (checkBatchStatus env s))"

section \<open>Concrete inputs\<close>

text \<open>A fresh process, a tokenizer that counts code units, endpoints that always give the
  same answer, that give the answers of a list in turn, or that always fail, and a job store
  holding one submitted job of two requests whose batch the remote API reports completed.
  Segments and answers are written in 8-bit characters.\<close>

definition initial_state :: state where
  "initial_state = \<lparr>jobs = [], toBatch = [], mostErrored = [], cache_file = [],
     most_errored_file = [], written = [], console = [], net_log = [], random_draws = 0\<rparr>"

definition always_answers :: "char list \<Rightarrow> nat \<Rightarrow> jstring \<Rightarrow> completion option" where
  "always_answers text k request =
     Some \<lparr>finish_reason = js ''stop'', message_content = Some (js text)\<rparr>"

definition answers_in_turn :: "char list list \<Rightarrow> nat \<Rightarrow> jstring \<Rightarrow> completion option" where
  "answers_in_turn texts k request =
     Some \<lparr>finish_reason = js ''stop'', message_content = Some (js (texts ! k))\<rparr>"

definition unreachable :: "nat \<Rightarrow> 'a \<Rightarrow> 'b option" where
  "unreachable k request = None"

definition unreachable_file :: "nat \<Rightarrow> jstring \<Rightarrow> error + 'b" where
  "unreachable_file k request = Inl NetworkError"

definition example_config :: "bool \<Rightarrow> limit \<Rightarrow> (nat \<Rightarrow> jstring \<Rightarrow> completion option) \<Rightarrow> config" where
  "example_config batch_mode max_tries endpoint =
     \<lparr>batch = batch_mode, debug = False, table = False, wait = False,
      MAX_TRIES = max_tries, MAX_TOKENS = 100,
      prompt = js ''You are an experienced semantic translator.'', numTokens = length,
      random_id = show_nat, chat_completions_create = endpoint,
      files_create = unreachable, batches_create = unreachable, batches_retrieve = unreachable,
      output_file_content = unreachable_file, error_file_content = unreachable_file\<rparr>"

definition seg :: "char list \<Rightarrow> char list \<Rightarrow> segment" where
  "seg h c = \<lparr>header = js h, content = js c, translatedContent = None\<rparr>"

definition accepts_upload :: "nat \<Rightarrow> batch_item list \<Rightarrow> jstring option" where
  "accepts_upload k items = Some (js ''file-in'')"

definition accepts_batch :: "nat \<Rightarrow> jstring \<Rightarrow> jstring option" where
  "accepts_batch k file_id = Some (js ''batch_1'')"

definition reports_completed :: "nat \<Rightarrow> jstring \<Rightarrow> remote_batch option" where
  "reports_completed k jid =
     Some \<lparr>status = js ''completed'', output_file_id = Some (js ''file-out''), error_file_id = []\<rparr>"

definition two_results :: "nat \<Rightarrow> jstring \<Rightarrow> error + output_line list" where
  "two_results k file_id = Inr [Content (Some (js ''1. Hola.'')), Content (Some (js ''1. Adios.''))]"

definition batch_config :: config where
  "batch_config =
     (example_config True (Finite 3) unreachable)
       \<lparr>files_create := accepts_upload, batches_create := accepts_batch,
        batches_retrieve := reports_completed, output_file_content := two_results\<rparr>"

definition stored_job :: job where
  "stored_job =
     \<lparr>job_id = js ''batch_1'', finished = False,
      requests = [\<lparr>rcontent = js ''1. Hello.'', rid = js ''batch_1'', result = None\<rparr>,
                  \<lparr>rcontent = js ''1. Goodbye.'', rid = js ''batch_1'', result = None\<rparr>]\<rparr>"

definition stored_state :: state where
  "stored_state = initial_state\<lparr>jobs := [stored_job], cache_file := [stored_job]\<rparr>"

text \<open>The store after the poll cycle that finds the batch completed.\<close>

definition polled_state :: state where
  "polled_state =
     initial_state
       \<lparr>jobs := [stored_job\<lparr>requests :=
                   [\<lparr>rcontent = js ''1. Hello.'', rid = js ''batch_1'', result = Some (js ''1. Hola.'')\<rparr>,
                    \<lparr>rcontent = js ''1. Goodbye.'', rid = js ''batch_1'', result = Some (js ''1. Adios.'')\<rparr>],
                 finished := True\<rparr>],
        cache_file := [stored_job\<lparr>requests :=
                   [\<lparr>rcontent = js ''1. Hello.'', rid = js ''batch_1'', result = Some (js ''1. Hola.'')\<rparr>,
                    \<lparr>rcontent = js ''1. Goodbye.'', rid = js ''batch_1'', result = Some (js ''1. Adios.'')\<rparr>],
                 finished := True\<rparr>],
        console := [CheckingJobs, JobCompleted (js ''batch_1'')],
        net_log := [BatchesRetrieve (js ''batch_1''), FilesContent (js ''file-out'')]\<rparr>"

section \<open>Evaluation\<close>

text \<open>The defining equations that the simplifier unfolds to run the model on the concrete
  inputs.\<close>

lemmas run_defs =
  groupSegmentsByTokenLength_def seg_def initial_state_def example_config_def
  always_answers_def answers_in_turn_def unreachable_def unreachable_file_def
  getTranslation_def render_group_def parse_response_def
  trim_def strip_ordinal_def is_space_def is_digit_def show_nat.simps js_def
  nth_opt_def assign_translations_def has_request_def reached_def Let_def

section \<open>Properties of the grouping\<close>

lemma group_loop_concat:
  "group_loop nt len segs groups cur cnt = (groups', cur', cnt')
     \<Longrightarrow> concat groups' @ cur' = concat groups @ cur @ segs"
  by (induction segs arbitrary: groups cur cnt) (auto simp: Let_def split: if_splits)

text \<open>Claim C1. For every tokenizer, every sequence of segments and every budget,
  concatenating in order the groups returned by \<open>groupSegmentsByTokenLength\<close> gives back
  the input sequence: no segment is dropped, duplicated or reordered.\<close>

theorem groups_concat_is_input:
  "concat (groupSegmentsByTokenLength nt segments len) = segments"
proof -
  obtain groups cur cnt where
    loop: "group_loop nt len segments [] [] 0 = (groups, cur, cnt)"
    by (metis prod_cases3)
  from group_loop_concat [OF loop] have "concat groups @ cur = segments"
    by simp
  with loop show ?thesis
    by (auto simp: groupSegmentsByTokenLength_def)
qed

text \<open>An oversized segment: the loop closes the current group without looking at it, so
  when the first segment alone exceeds the budget the group closed is the empty one the
  loop started with.\<close>

lemma group_loop_extends:
  "group_loop nt len segs groups cur cnt = (groups', cur', cnt')
     \<Longrightarrow> \<exists>more. groups' = groups @ more"
proof (induction segs arbitrary: groups cur cnt)
  case Nil
  then show ?case by simp
next
  case (Cons s segs)
  show ?case
  proof (cases "cnt + int (nt (content s)) \<le> len")
    case True
    with Cons.prems show ?thesis by (auto dest: Cons.IH)
  next
    case False
    with Cons.prems have "\<exists>more. groups' = (groups @ [cur]) @ more"
      by (auto dest: Cons.IH)
    then show ?thesis by auto
  qed
qed

lemma oversized_head_empty_group:
  assumes "len < int (nt (content s))"
  shows "\<exists>rest. groupSegmentsByTokenLength nt (s # segs) len = [] # rest"
proof -
  obtain groups cur cnt where
    loop: "group_loop nt len segs [[]] [s] (int (nt (content s))) = (groups, cur, cnt)"
    by (metis prod_cases3)
  from group_loop_extends [OF loop] obtain more where "groups = [[]] @ more" by blast
  with loop assms show ?thesis
    by (auto simp: groupSegmentsByTokenLength_def)
qed

lemma group_loop_oversized_alone:
  assumes "group_loop nt len segs groups cur cnt = (groups', cur', cnt')"
    and "\<forall>g \<in> set groups. \<forall>x \<in> set g. len < int (nt (content x)) \<longrightarrow> g = [x]"
    and "\<forall>x \<in> set cur. len < int (nt (content x)) \<longrightarrow> cur = [x] \<and> len < cnt"
    and "0 \<le> cnt"
  shows "(\<forall>g \<in> set groups'. \<forall>x \<in> set g. len < int (nt (content x)) \<longrightarrow> g = [x])
       \<and> (\<forall>x \<in> set cur'. len < int (nt (content x)) \<longrightarrow> cur' = [x])"
  using assms
proof (induction segs arbitrary: groups cur cnt)
  case Nil
  then show ?case by simp
next
  case (Cons s segs)
  let ?t = "int (nt (content s))"
  show ?case
  proof (cases "cnt + ?t \<le> len")
    case True
    with Cons.prems(1) have loop:
      "group_loop nt len segs groups (cur @ [s]) (cnt + ?t + 4) = (groups', cur', cnt')"
      by simp
    from True Cons.prems(4) have small: "\<not> len < ?t" and "cnt \<le> len" by linarith+
    with Cons.prems(3) have "\<forall>x \<in> set cur. \<not> len < int (nt (content x))" by auto
    with small have "\<forall>x \<in> set (cur @ [s]). len < int (nt (content x))
        \<longrightarrow> cur @ [s] = [x] \<and> len < cnt + ?t + 4"
      by auto
    moreover from Cons.prems(4) have "0 \<le> cnt + ?t + 4" by simp
    ultimately show ?thesis
      using Cons.IH [OF loop Cons.prems(2)] by blast
  next
    case False
    with Cons.prems(1) have loop:
      "group_loop nt len segs (groups @ [cur]) [s] ?t = (groups', cur', cnt')"
      by simp
    have "\<forall>g \<in> set (groups @ [cur]). \<forall>x \<in> set g. len < int (nt (content x)) \<longrightarrow> g = [x]"
      using Cons.prems(2,3) by auto
    moreover have "\<forall>x \<in> set [s]. len < int (nt (content x)) \<longrightarrow> [s] = [x] \<and> len < ?t"
      by simp
    moreover have "0 \<le> ?t" by simp
    ultimately show ?thesis
      using Cons.IH [OF loop] by blast
  qed
qed

lemma oversized_segment_alone:
  assumes "g \<in> set (groupSegmentsByTokenLength nt segs len)"
    and "x \<in> set g" and "len < int (nt (content x))"
  shows "g = [x]"
proof -
  obtain groups cur cnt where
    loop: "group_loop nt len segs [] [] 0 = (groups, cur, cnt)"
    by (metis prod_cases3)
  have inv: "(\<forall>g \<in> set groups. \<forall>x \<in> set g. len < int (nt (content x)) \<longrightarrow> g = [x])
       \<and> (\<forall>x \<in> set cur. len < int (nt (content x)) \<longrightarrow> cur = [x])"
    by (rule group_loop_oversized_alone [OF loop]) simp_all
  from assms(1) loop have "g \<in> set groups \<or> g = cur"
    by (auto simp: groupSegmentsByTokenLength_def split: if_splits)
  with inv assms(2,3) show ?thesis by blast
qed

text \<open>Claim C2. No group returned by \<open>groupSegmentsByTokenLength\<close> is empty, and a segment
  whose cost alone exceeds the budget is placed alone in a group of its own. The second half
  holds (\<open>oversized_segment_alone\<close>). The first half fails on the code: line 74 pushes
  \<open>currentGroup\<close> without the test for emptiness that line 80 makes, so a first segment of
  five tokens under a budget of three yields an empty group before its own.\<close>

theorem oversized_first_segment_gives_empty_group:
  "groupSegmentsByTokenLength length [seg ''h1'' ''Hello''] 3 = [[], [seg ''h1'' ''Hello'']]"
  by (simp add: groupSegmentsByTokenLength_def seg_def js_def)

text \<open>The running count of the loop is at least the cost of the current group with the
  delimiters between its segments, and it is exactly that cost when the group was started by
  line 76, which sets the count to the tokens of the segment without the four tokens that
  line 72 adds for a segment it pushes. So a group of two segments or more can exceed the
  budget, by four tokens at most.\<close>

lemma token_sum_snoc:
  "token_sum nt (g @ [s]) = token_sum nt g + int (nt (content s))"
  by (simp add: token_sum_def)

lemma group_loop_cost:
  assumes "group_loop nt len segs groups cur cnt = (groups', cur', cnt')"
    and "\<forall>g \<in> set groups. 2 \<le> length g \<longrightarrow> inter_segment_cost nt g \<le> len + 4"
    and "2 \<le> length cur \<longrightarrow> inter_segment_cost nt cur \<le> len + 4"
    and "inter_segment_cost nt cur \<le> cnt"
  shows "(\<forall>g \<in> set groups'. 2 \<le> length g \<longrightarrow> inter_segment_cost nt g \<le> len + 4)
       \<and> (2 \<le> length cur' \<longrightarrow> inter_segment_cost nt cur' \<le> len + 4)"
  using assms
proof (induction segs arbitrary: groups cur cnt)
  case Nil
  then show ?case by simp
next
  case (Cons s segs)
  let ?t = "int (nt (content s))"
  show ?case
  proof (cases "cnt + ?t \<le> len")
    case True
    with Cons.prems(1) have loop:
      "group_loop nt len segs groups (cur @ [s]) (cnt + ?t + 4) = (groups', cur', cnt')"
      by simp
    have cost: "inter_segment_cost nt (cur @ [s]) = inter_segment_cost nt cur + ?t + 4"
      by (simp add: inter_segment_cost_def token_sum_snoc)
    with Cons.prems(4) True have "inter_segment_cost nt (cur @ [s]) \<le> len + 4" by linarith
    moreover from cost Cons.prems(4) have "inter_segment_cost nt (cur @ [s]) \<le> cnt + ?t + 4"
      by linarith
    ultimately show ?thesis
      using Cons.IH [OF loop Cons.prems(2)] by blast
  next
    case False
    with Cons.prems(1) have loop:
      "group_loop nt len segs (groups @ [cur]) [s] ?t = (groups', cur', cnt')"
      by simp
    have "\<forall>g \<in> set (groups @ [cur]). 2 \<le> length g \<longrightarrow> inter_segment_cost nt g \<le> len + 4"
      using Cons.prems(2,3) by auto
    moreover have "2 \<le> length [s] \<longrightarrow> inter_segment_cost nt [s] \<le> len + 4" by simp
    moreover have "inter_segment_cost nt [s] \<le> ?t"
      by (simp add: inter_segment_cost_def token_sum_def)
    ultimately show ?thesis
      using Cons.IH [OF loop] by blast
  qed
qed

lemma group_cost_bound:
  assumes "g \<in> set (groupSegmentsByTokenLength nt segments len)" and "2 \<le> length g"
  shows "inter_segment_cost nt g \<le> len + 4"
proof -
  obtain groups cur cnt where
    loop: "group_loop nt len segments [] [] 0 = (groups, cur, cnt)"
    by (metis prod_cases3)
  have inv: "(\<forall>g \<in> set groups. 2 \<le> length g \<longrightarrow> inter_segment_cost nt g \<le> len + 4)
       \<and> (2 \<le> length cur \<longrightarrow> inter_segment_cost nt cur \<le> len + 4)"
    by (rule group_loop_cost [OF loop]) (simp_all add: inter_segment_cost_def token_sum_def)
  from assms(1) loop have "g \<in> set groups \<or> g = cur"
    by (auto simp: groupSegmentsByTokenLength_def split: if_splits)
  with inv assms(2) show ?thesis by blast
qed

text \<open>The first group is filled by line 72 alone, from a count of zero, and keeps to the
  budget with the delimiters between its segments, unless it is the empty group of an
  oversized first segment.\<close>

lemma group_loop_first:
  assumes "group_loop nt len segs groups cur cnt = (groups', cur', cnt')"
    and "groups = [] \<longrightarrow> cnt = estimated_cost nt cur
           \<and> (cur \<noteq> [] \<longrightarrow> inter_segment_cost nt cur \<le> len)"
    and "groups \<noteq> [] \<longrightarrow> hd groups = [] \<or> inter_segment_cost nt (hd groups) \<le> len"
  shows "(groups' = [] \<longrightarrow> cur' \<noteq> [] \<longrightarrow> inter_segment_cost nt cur' \<le> len)
       \<and> (groups' \<noteq> [] \<longrightarrow> hd groups' = [] \<or> inter_segment_cost nt (hd groups') \<le> len)"
  using assms
proof (induction segs arbitrary: groups cur cnt)
  case Nil
  then show ?case by simp
next
  case (Cons s segs)
  let ?t = "int (nt (content s))"
  show ?case
  proof (cases "cnt + ?t \<le> len")
    case True
    with Cons.prems(1) have loop:
      "group_loop nt len segs groups (cur @ [s]) (cnt + ?t + 4) = (groups', cur', cnt')"
      by simp
    have "groups = [] \<longrightarrow> cnt + ?t + 4 = estimated_cost nt (cur @ [s])
           \<and> (cur @ [s] \<noteq> [] \<longrightarrow> inter_segment_cost nt (cur @ [s]) \<le> len)"
      using Cons.prems(2) True
      by (auto simp: estimated_cost_def inter_segment_cost_def token_sum_snoc)
    from Cons.IH [OF loop this Cons.prems(3)] show ?thesis .
  next
    case False
    with Cons.prems(1) have loop:
      "group_loop nt len segs (groups @ [cur]) [s] ?t = (groups', cur', cnt')"
      by simp
    have "groups @ [cur] \<noteq> [] \<longrightarrow> hd (groups @ [cur]) = []
            \<or> inter_segment_cost nt (hd (groups @ [cur])) \<le> len"
      using Cons.prems(2,3) by (cases groups) auto
    from Cons.IH [OF loop _ this] show ?thesis by simp
  qed
qed

lemma first_group_within_budget:
  assumes "groupSegmentsByTokenLength nt segments len = g # rest"
  shows "g = [] \<or> inter_segment_cost nt g \<le> len"
proof -
  obtain groups cur cnt where
    loop: "group_loop nt len segments [] [] 0 = (groups, cur, cnt)"
    by (metis prod_cases3)
  have inv: "(groups = [] \<longrightarrow> cur \<noteq> [] \<longrightarrow> inter_segment_cost nt cur \<le> len)
       \<and> (groups \<noteq> [] \<longrightarrow> hd groups = [] \<or> inter_segment_cost nt (hd groups) \<le> len)"
    by (rule group_loop_first [OF loop]) (simp_all add: estimated_cost_def token_sum_def)
  from assms loop have "(groups = [] \<and> g = cur \<and> cur \<noteq> []) \<or> (groups \<noteq> [] \<and> g = hd groups)"
    by (cases groups) (auto simp: groupSegmentsByTokenLength_def split: if_splits)
  with inv show ?thesis by blast
qed

text \<open>Claim C3. Every group has an estimated cost, the token counts plus the delimiter
  overhead, of at most the budget, or exactly one segment. That is what the loop sets out
  to keep: line 72 counts the four tokens of the delimiter for each segment it pushes (its
  comment says so), and the first group keeps to the budget (\<open>first_group_within_budget\<close>).
  Line 76 starts the next group without the four tokens of its first segment, so that group
  can take up to four tokens too many (\<open>group_cost_bound\<close>). Segments of six, five and five
  tokens under a budget of ten give a second group of two segments with ten tokens, which
  cost fourteen with the one delimiter between them and eighteen with a delimiter for
  each.\<close>

theorem group_started_by_line_76_exceeds_budget:
  "groupSegmentsByTokenLength length
       [seg ''h1'' ''aaaaaa'', seg ''h2'' ''bbbbb'', seg ''h3'' ''ccccc''] 10
     = [[seg ''h1'' ''aaaaaa''], [seg ''h2'' ''bbbbb'', seg ''h3'' ''ccccc'']]
   \<and> inter_segment_cost length [seg ''h2'' ''bbbbb'', seg ''h3'' ''ccccc''] = 14
   \<and> estimated_cost length [seg ''h2'' ''bbbbb'', seg ''h3'' ''ccccc''] = 18
   \<and> \<not> (estimated_cost length [seg ''h2'' ''bbbbb'', seg ''h3'' ''ccccc''] \<le> 10
          \<or> length [seg ''h2'' ''bbbbb'', seg ''h3'' ''ccccc''] = 1)"
  by (simp add: groupSegmentsByTokenLength_def estimated_cost_def inter_segment_cost_def
        token_sum_def seg_def js_def)

section \<open>Properties of the verification and retry\<close>

lemma pass_thrown:
  "getTranslation env s (render_group grp) = Inl thrown
     \<Longrightarrow> translate_pass env s grp number = Settles (Inl thrown)"
  by (simp add: translate_pass_def)

lemma pass_no_translation:
  "getTranslation env s (render_group grp) = Inr (None, s1)
     \<Longrightarrow> translate_pass env s grp number = Settles (Inr ((grp, False), s1))"
  by (simp add: translate_pass_def)

lemma pass_empty_response:
  "getTranslation env s (render_group grp) = Inr (Some [], s1)
     \<Longrightarrow> translate_pass env s grp number = Settles (Inr ((grp, False), s1))"
  by (simp add: translate_pass_def)

lemma pass_match:
  assumes "getTranslation env s (render_group grp) = Inr (Some translated, s1)"
    and "translated \<noteq> []"
    and "length (parse_response translated) = length grp"
  shows "translate_pass env s grp number =
           Settles (Inr ((assign_translations grp (parse_response translated), True),
                         state_at_check env grp number translated s1))"
  using assms by (simp add: translate_pass_def Let_def state_at_check_def)

lemma pass_exhausted:
  assumes "getTranslation env s (render_group grp) = Inr (Some translated, s1)"
    and "translated \<noteq> []"
    and "length (parse_response translated) \<noteq> length grp"
    and "reached number (MAX_TRIES env)"
  shows "translate_pass env s grp number =
           (case mismatch_cleanup env grp number translated s1 of
              Inl thrown \<Rightarrow> Settles (Inl thrown)
            | Inr s4 \<Rightarrow>
                Settles (Inr ((grp, False),
                     s4\<lparr>console := console s4 @
                          [LengthMismatchError (length (parse_response translated)) (length grp)]\<rparr>)))"
  using assms
  by (simp add: translate_pass_def Let_def state_at_check_def mismatch_cleanup_def
           split: sum.splits)

lemma pass_retry:
  assumes "getTranslation env s (render_group grp) = Inr (Some translated, s1)"
    and "translated \<noteq> []"
    and "length (parse_response translated) \<noteq> length grp"
    and "\<not> reached number (MAX_TRIES env)"
  shows "translate_pass env s grp number =
           (case retry_state env grp number translated s1 of
              Inl thrown \<Rightarrow> Settles (Inl thrown)
            | Inr s' \<Rightarrow> CallsAgain s')"
  using assms
  by (simp add: translate_pass_def Let_def state_at_check_def mismatch_cleanup_def retry_state_def
           split: sum.splits)

lemma translate_settles:
  "translate_pass env s grp number = Settles r \<Longrightarrow> translate env s grp number = Some r"
  by (subst translate.simps) simp

lemma translate_calls_again:
  "translate_pass env s grp number = CallsAgain s'
     \<Longrightarrow> translate env s grp number = translate env s' grp (number + 1)"
  by (subst translate.simps) simp

lemma calls_again_below_limit:
  "translate_pass env s grp number = CallsAgain s' \<Longrightarrow> \<not> reached number (MAX_TRIES env)"
  by (auto simp: translate_pass_def Let_def split: sum.splits option.splits if_splits prod.splits)

lemma parse_response_empty: "parse_response [] = []"
  by (simp add: parse_response_def strip_ordinal_def trim_def)

lemma getTranslation_batch_Some:
  assumes "batch env" and "getTranslation env s text = Inr (Some translated, s1)"
  shows "s1 = s \<and> (\<exists>j \<in> set (jobs s). has_request text j)"
proof (cases "find (has_request text) (jobs s)")
  case None
  with assms show ?thesis by (simp add: getTranslation_def)
next
  case (Some j)
  then have "j \<in> set (jobs s) \<and> has_request text j"
    by (auto simp: find_Some_iff)
  with assms Some show ?thesis
    by (auto simp: getTranslation_def split: if_splits)
qed

lemma jobs_state_at_check [simp]:
  "jobs (state_at_check env grp number translated s1) = jobs s1"
  by (simp add: state_at_check_def log_most_errored_def print_table_def Let_def)

lemma drop_request_ok:
  assumes "\<exists>j \<in> set (jobs s). has_request text j"
  shows "\<exists>s'. drop_request text s = Inr s'"
proof -
  from assms have "List.extract (has_request text) (jobs s) \<noteq> None"
    by (simp add: extract_None_iff)
  then show ?thesis
    by (auto simp: drop_request_def Let_def)
qed

lemma mismatch_cleanup_ok:
  assumes "getTranslation env s (render_group grp) = Inr (Some translated, s1)"
  shows "\<exists>s4. mismatch_cleanup env grp number translated s1 = Inr s4"
proof (cases "batch env")
  case True
  from getTranslation_batch_Some [OF True assms]
  have "\<exists>j \<in> set (jobs (state_at_check env grp number translated s1)).
          has_request (render_group grp) j"
    by simp
  from drop_request_ok [OF this] True show ?thesis
    by (simp add: mismatch_cleanup_def)
next
  case False
  then show ?thesis by (simp add: mismatch_cleanup_def)
qed

lemma outcome_state_simps [simp]:
  "outcome_state (Inl (thrown, s)) = s" "outcome_state (Inr (v, s)) = s"
  by (simp_all add: outcome_state_def)

lemma pass_state_simps [simp]:
  "pass_state (Settles r) = outcome_state r" "pass_state (CallsAgain s) = s"
  by (simp_all add: pass_state_def)

lemma getTranslation_corpus:
  "mostErrored (outcome_state (getTranslation env s text)) = mostErrored s
   \<and> most_errored_file (outcome_state (getTranslation env s text)) = most_errored_file s
   \<and> written (outcome_state (getTranslation env s text)) = written s"
  by (simp add: getTranslation_def Let_def split: option.splits)

lemma getTranslation_net_log:
  "net_log (outcome_state (getTranslation env s text)) = net_log s
   \<or> net_log (outcome_state (getTranslation env s text)) = net_log s @ [ChatCompletionsCreate text]"
  by (simp add: getTranslation_def Let_def split: option.splits)

lemma state_at_check_corpus:
  "mostErrored (state_at_check env grp number translated s1) =
     (if 3 < number
      then mostErrored s1 @ [\<lparr>er_prompt = prompt env, er_input = render_group grp,
                               er_output = translated\<rparr>]
      else mostErrored s1)"
  "most_errored_file (state_at_check env grp number translated s1) =
     (if 3 < number
      then mostErrored s1 @ [\<lparr>er_prompt = prompt env, er_input = render_group grp,
                               er_output = translated\<rparr>]
      else most_errored_file s1)"
  "net_log (state_at_check env grp number translated s1) = net_log s1"
  "written (state_at_check env grp number translated s1) = written s1"
  by (simp_all add: state_at_check_def log_most_errored_def print_table_def Let_def)

lemma drop_request_keeps:
  assumes "drop_request text s = Inr s'"
  shows "mostErrored s' = mostErrored s" "most_errored_file s' = most_errored_file s"
    "net_log s' = net_log s" "written s' = written s"
  using assms by (auto simp: drop_request_def Let_def split: option.splits)

lemma mismatch_cleanup_keeps:
  assumes "mismatch_cleanup env grp number translated s1 = Inr s4"
  shows "mostErrored s4 = mostErrored (state_at_check env grp number translated s1)"
    "most_errored_file s4 = most_errored_file (state_at_check env grp number translated s1)"
    "net_log s4 = net_log s1" "written s4 = written s1"
  using assms drop_request_keeps [of "render_group grp" "state_at_check env grp number translated s1" s4]
  by (auto simp: mismatch_cleanup_def state_at_check_corpus(3,4) split: if_splits)

lemma retry_state_ok:
  assumes "getTranslation env s (render_group grp) = Inr (Some translated, s1)"
  shows "\<exists>s'. retry_state env grp number translated s1 = Inr s'"
  using mismatch_cleanup_ok [OF assms, of number] by (auto simp: retry_state_def)

lemma retry_state_keeps:
  assumes "retry_state env grp number translated s1 = Inr s'"
  shows "mostErrored s' = mostErrored (state_at_check env grp number translated s1)"
    "most_errored_file s' = most_errored_file (state_at_check env grp number translated s1)"
    "net_log s' = net_log s1" "written s' = written s1"
  using assms mismatch_cleanup_keeps [of env grp number translated s1]
  by (auto simp: retry_state_def split: sum.splits)

lemma pass_effect_cong:
  assumes "pass_effect env grp number s a"
    and "mostErrored b = mostErrored a" and "most_errored_file b = most_errored_file a"
    and "net_log b = net_log a" and "written b = written a"
  shows "pass_effect env grp number s b"
  using assms by (simp add: pass_effect_def)

lemma pass_effect_no_response:
  assumes "mostErrored s' = mostErrored s" and "most_errored_file s' = most_errored_file s"
    and "net_log s' = net_log s \<or> net_log s' = net_log s @ [ChatCompletionsCreate (render_group grp)]"
    and "written s' = written s"
    and "\<And>translated s1. getTranslation env s (render_group grp) = Inr (Some translated, s1)
           \<Longrightarrow> translated = []"
  shows "pass_effect env grp number s s'"
  using assms by (auto simp: pass_effect_def)

text \<open>Every activation of \<open>translate\<close>, from whatever state it starts.\<close>

lemma translate_pass_effect:
  "pass_effect env grp number s (pass_state (translate_pass env s grp number))"
proof (cases "getTranslation env s (render_group grp)")
  case (Inl thrown)
  obtain e s' where thrown: "thrown = (e, s')" by (cases thrown)
  from Inl thrown getTranslation_corpus [of env s "render_group grp"]
    getTranslation_net_log [of env s "render_group grp"]
  have "pass_effect env grp number s s'"
    by (intro pass_effect_no_response) simp_all
  with pass_thrown [OF Inl, of number] thrown show ?thesis by simp
next
  case (Inr r)
  obtain tr s1 where r: "r = (tr, s1)" by (cases r)
  from Inr r getTranslation_corpus [of env s "render_group grp"]
    getTranslation_net_log [of env s "render_group grp"]
  have s1: "mostErrored s1 = mostErrored s" "most_errored_file s1 = most_errored_file s"
    "net_log s1 = net_log s \<or> net_log s1 = net_log s @ [ChatCompletionsCreate (render_group grp)]"
    "written s1 = written s"
    by simp_all
  show ?thesis
  proof (cases tr)
    case None
    with Inr r s1 have "pass_effect env grp number s s1"
      by (intro pass_effect_no_response) simp_all
    with None Inr r pass_no_translation [of env s grp s1 number] show ?thesis
      by simp
  next
    case (Some translated)
    with Inr r have got: "getTranslation env s (render_group grp) = Inr (Some translated, s1)"
      by simp
    let ?s3 = "state_at_check env grp number translated s1"
    show ?thesis
    proof (cases "translated = []")
      case True
      with got s1 have "pass_effect env grp number s s1"
        by (intro pass_effect_no_response) simp_all
      with True got pass_empty_response [of env s grp s1 number] show ?thesis
        by simp
    next
      case nonempty: False
      have s3: "pass_effect env grp number s ?s3"
        using s1 by (simp add: pass_effect_def got state_at_check_corpus)
      show ?thesis
      proof (cases "length (parse_response translated) = length grp")
        case True
        from pass_match [OF got nonempty True, of number] s3
        show ?thesis by simp
      next
        case differs: False
        show ?thesis
        proof (cases "reached number (MAX_TRIES env)")
          case True
          from mismatch_cleanup_ok [OF got] obtain s4 where
            s4: "mismatch_cleanup env grp number translated s1 = Inr s4" by blast
          let ?s5 = "s4\<lparr>console := console s4 @
                [LengthMismatchError (length (parse_response translated)) (length grp)]\<rparr>"
          have "pass_effect env grp number s ?s5"
            using mismatch_cleanup_keeps [OF s4]
            by (intro pass_effect_cong [OF s3]) (simp_all add: state_at_check_corpus(3,4))
          with pass_exhausted [OF got nonempty differs True] s4 show ?thesis
            by simp
        next
          case False
          from retry_state_ok [OF got] obtain s' where
            s': "retry_state env grp number translated s1 = Inr s'" by blast
          have "pass_effect env grp number s s'"
            using retry_state_keeps [OF s']
            by (intro pass_effect_cong [OF s3]) (simp_all add: state_at_check_corpus(3,4))
          with pass_retry [OF got nonempty differs False] s' show ?thesis
            by simp
        qed
      qed
    qed
  qed
qed

text \<open>A whole call, when it returns or throws: induction over the calls made from
  line 192.\<close>

lemma translate_effect:
  assumes "translate env s grp number = Some r"
  shows "(\<exists>more. mostErrored (outcome_state r) = mostErrored s @ more)
   \<and> (3 < number \<longrightarrow> most_errored_file s = mostErrored s \<longrightarrow>
        most_errored_file (outcome_state r) = mostErrored (outcome_state r))
   \<and> (\<exists>k. net_log (outcome_state r)
             = net_log s @ replicate k (ChatCompletionsCreate (render_group grp))
          \<and> (\<forall>m. MAX_TRIES env = Finite m \<longrightarrow> k \<le> nat (m - number) + 1))
   \<and> written (outcome_state r) = written s"
  using assms
proof (induction env s grp number r rule: translate.raw_induct [rotated 1, consumes 1])
  case (1 later env s grp number r)
  let ?request = "ChatCompletionsCreate (render_group grp)"
  note pass = translate_pass_effect [of env grp number s]
  show ?case
  proof (cases "translate_pass env s grp number")
    case (Settles r')
    with 1(2) have "r' = r" by simp
    with pass Settles have effect: "pass_effect env grp number s (outcome_state r)"
      by simp
    then have "net_log (outcome_state r) = net_log s @ replicate 0 ?request
        \<or> net_log (outcome_state r) = net_log s @ replicate 1 ?request"
      by (simp add: pass_effect_def)
    then have "\<exists>k. net_log (outcome_state r) = net_log s @ replicate k ?request
          \<and> (\<forall>m. MAX_TRIES env = Finite m \<longrightarrow> k \<le> nat (m - number) + 1)"
      by (elim disjE) (rule exI [of _ 0], simp, rule exI [of _ 1], simp)
    with effect show ?thesis by (simp add: pass_effect_def)
  next
    case (CallsAgain s')
    with 1(2) have "later env s' grp (number + 1) = Some r" by simp
    note ih = 1(1) [OF this]
    from pass CallsAgain have effect: "pass_effect env grp number s s'" by simp
    from calls_again_below_limit [OF CallsAgain]
    have below: "\<not> reached number (MAX_TRIES env)" .
    from effect obtain more1 where more1: "mostErrored s' = mostErrored s @ more1"
      by (auto simp: pass_effect_def)
    from ih obtain more2 where
      more2: "mostErrored (outcome_state r) = mostErrored s' @ more2"
      by blast
    have corpus: "\<exists>more. mostErrored (outcome_state r) = mostErrored s @ more"
      by (simp add: more1 more2)
    have on_file: "most_errored_file (outcome_state r) = mostErrored (outcome_state r)"
      if "3 < number" "most_errored_file s = mostErrored s"
    proof -
      from effect that have "most_errored_file s' = mostErrored s'"
        by (simp add: pass_effect_def)
      with ih that(1) show ?thesis by simp
    qed
    from ih obtain k where
      k: "net_log (outcome_state r) = net_log s' @ replicate k ?request"
        "\<forall>m. MAX_TRIES env = Finite m \<longrightarrow> k \<le> nat (m - (number + 1)) + 1"
      by blast
    from effect have "net_log s' = net_log s @ replicate 0 ?request
        \<or> net_log s' = net_log s @ replicate 1 ?request"
      by (simp add: pass_effect_def)
    then obtain j where j: "net_log s' = net_log s @ replicate j ?request" "j \<le> 1"
      by (elim disjE) (rule that [of 0], simp, simp, rule that [of 1], simp, simp)
    have "net_log (outcome_state r) = net_log s @ replicate (j + k) ?request"
      by (simp add: k(1) j(1) replicate_add)
    moreover have "j + k \<le> nat (m - number) + 1" if "MAX_TRIES env = Finite m" for m
    proof -
      from below that have "number < m" by (simp add: reached_def)
      with k(2) that j(2) show ?thesis by auto
    qed
    ultimately have requests: "\<exists>k. net_log (outcome_state r) = net_log s @ replicate k ?request
          \<and> (\<forall>m. MAX_TRIES env = Finite m \<longrightarrow> k \<le> nat (m - number) + 1)"
      by blast
    have "written (outcome_state r) = written s"
      using effect ih by (simp add: pass_effect_def)
    with corpus on_file requests show ?thesis by blast
  qed
qed

text \<open>With a finite \<open>MAX_TRIES\<close> the call returns or throws: \<open>MAX_TRIES - number\<close>
  decreases with every call made from line 192.\<close>

lemma translate_returns:
  assumes "MAX_TRIES env = Finite m"
  shows "\<exists>r. translate env s grp number = Some r"
proof (induction "nat (m - number)" arbitrary: s number rule: less_induct)
  case less
  show ?case
  proof (cases "translate_pass env s grp number")
    case (Settles r)
    from translate_settles [OF this] show ?thesis by blast
  next
    case (CallsAgain s')
    from calls_again_below_limit [OF this] assms have "number < m"
      by (simp add: reached_def)
    then have "nat (m - (number + 1)) < nat (m - number)" by simp
    from less.hyps [OF this] obtain r where "translate env s' grp (number + 1) = Some r"
      by blast
    with translate_calls_again [OF CallsAgain] show ?thesis by simp
  qed
qed

text \<open>Without one it need not: where \<open>MAX_TRIES\<close> is not a number, a direct call whose
  every answer has the wrong number of fragments is followed by another, without end.\<close>

lemma sync_mismatch_calls_again:
  assumes "\<not> batch env" and "\<not> reached number (MAX_TRIES env)"
    and "chat_completions_create env (length (net_log s)) (render_group grp)
           = Some \<lparr>finish_reason = js ''stop'', message_content = Some c\<rparr>"
    and "c \<noteq> []" and "length (parse_response c) \<noteq> length grp"
  shows "\<exists>s'. translate_pass env s grp number = CallsAgain s'"
proof -
  let ?s1 = "s\<lparr>net_log := net_log s @ [ChatCompletionsCreate (render_group grp)]\<rparr>"
  from assms(1,3) have got: "getTranslation env s (render_group grp) = Inr (Some c, ?s1)"
    by (simp add: getTranslation_def Let_def)
  from retry_state_ok [OF got] obtain s' where "retry_state env grp number c ?s1 = Inr s'"
    by blast
  with pass_retry [OF got assms(4,5,2)] show ?thesis by simp
qed

lemma translate_never_returns:
  assumes "\<not> batch env" and "MAX_TRIES env = NaN \<or> MAX_TRIES env = PlusInfinity"
    and "\<forall>k. \<exists>c. chat_completions_create env k (render_group grp)
                    = Some \<lparr>finish_reason = js ''stop'', message_content = Some c\<rparr>
                \<and> c \<noteq> [] \<and> length (parse_response c) \<noteq> length grp"
  shows "translate env s grp number = None"
proof -
  have never: "\<not> reached n (MAX_TRIES env)" for n
    using assms(2) by (auto simp: reached_def)
  have never_some: "False" if "translate env' s grp' number = Some r" "env' = env" "grp' = grp"
    for env' s grp' number r
    using that
  proof (induction env' s grp' number r rule: translate.raw_induct [rotated 1, consumes 1])
    case (1 later env' s grp' number r)
    from assms(3) obtain c where
      "chat_completions_create env (length (net_log s)) (render_group grp)
          = Some \<lparr>finish_reason = js ''stop'', message_content = Some c\<rparr>"
      "c \<noteq> []" "length (parse_response c) \<noteq> length grp"
      by blast
    from sync_mismatch_calls_again [OF assms(1) never this] obtain s' where
      "translate_pass env s grp number = CallsAgain s'"
      by blast
    with 1(2,3,4) have "later env' s' grp' (number + 1) = Some r" by simp
    from 1(1) [OF this 1(3,4)] show False .
  qed
  have "translate env s grp number \<noteq> Some r" for r
    using never_some [of env s grp number r] by auto
  then show ?thesis by (cases "translate env s grp number") auto
qed

section \<open>Properties of the parser\<close>

lemma split_on_nonempty [simp]: "split_on c s \<noteq> []"
  by (induction s) (auto split: list.splits)

lemma split_on_no_separator: "c \<notin> set s \<Longrightarrow> split_on c s = [s]"
  by (induction s) auto

lemma split_on_separator:
  "c \<notin> set a \<Longrightarrow> split_on c (a @ c # rest) = a # split_on c rest"
  by (induction a) auto

lemma split_on_pieces: "piece \<in> set (split_on c s) \<Longrightarrow> c \<notin> set piece"
  by (induction s arbitrary: piece) (auto split: if_splits list.splits)

lemma join_split_on: "join [c] (split_on c s) = s"
proof (induction s)
  case Nil
  then show ?case by simp
next
  case (Cons x xs)
  obtain piece pieces where pieces: "split_on c xs = piece # pieces"
    by (cases "split_on c xs") auto
  with Cons show ?case by (cases pieces) auto
qed

lemma split_on_join:
  assumes "lines \<noteq> []" and "\<forall>line \<in> set lines. c \<notin> set line"
  shows "split_on c (join [c] lines) = lines"
  using assms
proof (induction lines)
  case Nil
  then show ?case by simp
next
  case (Cons x xs)
  show ?case
  proof (cases xs)
    case Nil
    with Cons.prems show ?thesis by (simp add: split_on_no_separator)
  next
    case (Cons y ys)
    with Cons.IH Cons.prems have "split_on c (join [c] xs) = xs" by simp
    with Cons Cons.prems show ?thesis by (simp add: split_on_separator)
  qed
qed

lemma digit_not_space: "is_digit u \<Longrightarrow> \<not> is_space u"
  by (auto simp: is_digit_def is_space_def)

lemma show_nat_digits: "show_nat n \<noteq> [] \<and> (\<forall>d \<in> set (show_nat n). is_digit d)"
proof (induction n rule: show_nat.induct)
  case (1 n)
  have unfold: "show_nat n = (if n < 10 then [0x30 + n] else show_nat (n div 10) @ [0x30 + n mod 10])"
    by (rule show_nat.simps)
  show ?case
  proof (cases "n < 10")
    case True
    then show ?thesis by (simp add: unfold is_digit_def)
  next
    case False
    have "n mod 10 < 10" by simp
    then have "is_digit (0x30 + n mod 10)" unfolding is_digit_def by linarith
    with False 1 show ?thesis by (simp add: unfold)
  qed
qed

lemma trim_unchanged:
  assumes "s \<noteq> []" and "\<not> is_space (hd s)" and "\<not> is_space (last s)"
  shows "trim s = s"
proof -
  from assms(1,2) have "dropWhile is_space s = s" by (cases s) auto
  moreover from assms(1,3) have "dropWhile is_space (rev s) = rev s"
    by (cases "rev s") (auto simp: last_rev [symmetric] hd_rev)
  ultimately show ?thesis by (simp add: trim_def)
qed

lemma trim_white:
  assumes "\<forall>u \<in> set s. is_space u"
  shows "trim s = []"
  using assms by (auto simp: trim_def dest: set_dropWhileD)

lemma rev_dropWhile_takeWhile:
  "rev (dropWhile P (rev xs)) @ rev (takeWhile P (rev xs)) = xs"
  by (metis rev_append rev_rev_ident takeWhile_dropWhile_id)

lemma trim_borders:
  "\<exists>before after. s = before @ trim s @ after
      \<and> (\<forall>u \<in> set before. is_space u) \<and> (\<forall>u \<in> set after. is_space u)"
proof -
  let ?rest = "dropWhile is_space s"
  have "s = takeWhile is_space s @ ?rest" by simp
  moreover have "?rest = trim s @ rev (takeWhile is_space (rev ?rest))"
    unfolding trim_def by (rule rev_dropWhile_takeWhile [symmetric])
  moreover have "\<forall>u \<in> set (takeWhile is_space s). is_space u"
    by (auto dest: set_takeWhileD)
  moreover have "\<forall>u \<in> set (rev (takeWhile is_space (rev ?rest))). is_space u"
    by (auto dest: set_takeWhileD)
  ultimately show ?thesis by metis
qed

lemma trim_ends:
  assumes "trim s \<noteq> []"
  shows "\<not> is_space (hd (trim s)) \<and> \<not> is_space (last (trim s))"
proof -
  let ?rest = "dropWhile is_space s"
  let ?behind = "dropWhile is_space (rev ?rest)"
  from assms have behind: "?behind \<noteq> []" by (simp add: trim_def)
  then have "\<not> is_space (hd ?behind)" by (rule hd_dropWhile)
  then have at_end: "\<not> is_space (last (trim s))"
    using behind by (simp add: trim_def last_rev)
  have rest: "?rest \<noteq> []"
  proof
    assume "?rest = []"
    then have "?behind = []" by (auto dest: set_dropWhileD)
    with behind show False by simp
  qed
  then have at_start: "\<not> is_space (hd ?rest)" by (rule hd_dropWhile)
  have "?rest = trim s @ rev (takeWhile is_space (rev ?rest))"
    unfolding trim_def by (rule rev_dropWhile_takeWhile [symmetric])
  with assms have "hd ?rest = hd (trim s)" by (metis hd_append2)
  with at_start at_end show ?thesis by simp
qed

lemma strip_ordinal_numbered: "strip_ordinal (show_nat n @ [0x2E, 0x20] @ t) = t"
proof -
  from show_nat_digits [of n] have digits: "show_nat n \<noteq> []" "\<forall>d \<in> set (show_nat n). is_digit d"
    by simp_all
  have dot: "\<not> is_digit 0x2E" by (simp add: is_digit_def)
  from digits(2) dot have "takeWhile is_digit (show_nat n @ [0x2E, 0x20] @ t) = show_nat n"
    by simp
  moreover from digits(2) dot
  have "dropWhile is_digit (show_nat n @ [0x2E, 0x20] @ t) = [0x2E, 0x20] @ t"
    by simp
  ultimately show ?thesis using digits(1) by (simp add: strip_ordinal_def)
qed

lemma strip_ordinal_unnumbered:
  "s = [] \<or> \<not> is_digit (hd s) \<Longrightarrow> strip_ordinal s = s"
  by (cases s) (auto simp: strip_ordinal_def)

text \<open>The parser undoes the rendering of line 144: an answer that repeats the request, for
  a group whose contents are not empty, hold no line feed and do not end in white space,
  parses to the contents of the group.\<close>

lemma numbered_line_parsed:
  assumes "c \<noteq> []" and "\<not> is_space (last c)"
  shows "strip_ordinal (trim (show_nat n @ [0x2E, 0x20] @ c)) = c"
proof -
  let ?line = "show_nat n @ [0x2E, 0x20] @ c"
  from show_nat_digits [of n] have "show_nat n \<noteq> []" "is_digit (hd (show_nat n))"
    by (simp, metis hd_in_set)
  then have "\<not> is_space (hd ?line)" by (simp add: digit_not_space)
  moreover from assms have "\<not> is_space (last ?line)" by simp
  ultimately have "trim ?line = ?line" by (intro trim_unchanged) simp_all
  then show ?thesis by (simp only: strip_ordinal_numbered)
qed

lemma numbered_lines_parsed:
  assumes "\<forall>c \<in> set cs. c \<noteq> [] \<and> \<not> is_space (last c)"
  shows "map (\<lambda>piece. strip_ordinal (trim piece))
           (map (\<lambda>(i, s). show_nat (i + 1) @ [0x2E, 0x20] @ s) (enumerate n cs)) = cs"
proof -
  have line: "strip_ordinal (trim (show_nat k @ 0x2E # 0x20 # c)) = c"
    if "c \<noteq> []" "\<not> is_space (last c)" for k c
    using numbered_line_parsed [OF that, of k] by simp
  from assms show ?thesis
    by (induction cs arbitrary: n) (simp_all add: line)
qed

lemma numbered_lines_no_line_feed:
  assumes "\<forall>c \<in> set cs. 0x0A \<notin> set c"
  shows "\<forall>line \<in> set (map (\<lambda>(i, s). show_nat (i + 1) @ [0x2E, 0x20] @ s) (enumerate n cs)).
           0x0A \<notin> set line"
proof -
  have "0x0A \<notin> set (show_nat k)" for k
    using show_nat_digits [of k] by (auto simp: is_digit_def)
  with assms show ?thesis by (auto simp: in_set_enumerate_eq)
qed

lemma parse_response_render_group:
  assumes "\<forall>m \<in> set grp. content m \<noteq> [] \<and> 0x0A \<notin> set (content m) \<and> \<not> is_space (last (content m))"
  shows "parse_response (render_group grp) = map content grp"
proof (cases "grp = []")
  case True
  then show ?thesis by (simp add: render_group_def parse_response_empty)
next
  case False
  let ?cs = "map content grp"
  let ?lines = "map (\<lambda>(i, s). show_nat (i + 1) @ [0x2E, 0x20] @ s) (enumerate 0 ?cs)"
  from False have "?lines \<noteq> []" by (cases grp) simp_all
  moreover from assms have "\<forall>line \<in> set ?lines. 0x0A \<notin> set line"
    by (intro numbered_lines_no_line_feed) simp
  ultimately have "split_on 0x0A (join [0x0A] ?lines) = ?lines"
    by (rule split_on_join)
  moreover from assms have "map (\<lambda>piece. strip_ordinal (trim piece)) ?lines = ?cs"
    by (intro numbered_lines_parsed) simp
  moreover from False assms have "last ?cs \<noteq> []" by (simp add: last_map)
  ultimately show ?thesis using False
    by (simp add: parse_response_def render_group_def)
qed

section \<open>Properties of a call of translate\<close>

lemma assign_translations_matching:
  assumes "length split = length grp"
  shows "assign_translations grp split
           = map2 (\<lambda>m fragment. m\<lparr>translatedContent := Some fragment\<rparr>) grp split"
  using assms
  by (intro nth_equalityI) (simp_all add: assign_translations_def nth_enumerate_eq nth_opt_def)

text \<open>Claim C4, as stated: for every group and every raw response, if the response, parsed,
  has as many fragments as the group has segments, \<open>translate\<close> sets every
  \<open>translatedContent\<close> and returns success. It fails for the empty response to the empty
  group, the group that the grouping emits before an oversized first segment: the response
  parses to no fragment, as many as the group has segments, but line 148 takes the empty
  string for no translation, and \<open>translate\<close> returns false.\<close>

theorem empty_response_is_no_translation_counterexample:
  "getTranslation (example_config False (Finite 3) (always_answers [])) initial_state
       (render_group [])
     = Inr (Some [], initial_state\<lparr>net_log := [ChatCompletionsCreate []]\<rparr>)
   \<and> length (parse_response []) = length ([] :: segment list)
   \<and> translate (example_config False (Finite 3) (always_answers [])) initial_state [] 0
     = Some (Inr (([], False), initial_state\<lparr>net_log := [ChatCompletionsCreate []]\<rparr>))"
  by (simp add: translate.simps translate_pass_def run_defs)

text \<open>Claim C4, amended: for every group and every response that is not the empty string,
  if the response parsed by \<open>translate\<close> (split on line feeds, each piece trimmed and
  then without its ordinal, one trailing empty fragment dropped) has as many fragments as
  the group has segments, then \<open>translate\<close> returns true and the group is the group it was
  given with the fragment of each position as the \<open>translatedContent\<close> of the segment at
  that position.\<close>

theorem translate_assigns_on_match:
  assumes "getTranslation env s (render_group grp) = Inr (Some translated, s1)"
    and "translated \<noteq> []"
    and "length (parse_response translated) = length grp"
  shows "\<exists>s'. translate env s grp number =
           Some (Inr ((map2 (\<lambda>m fragment. m\<lparr>translatedContent := Some fragment\<rparr>)
                         grp (parse_response translated), True), s'))"
proof -
  from pass_match [OF assms, of number] assign_translations_matching [OF assms(3)]
  have "translate_pass env s grp number =
          Settles (Inr ((map2 (\<lambda>m fragment. m\<lparr>translatedContent := Some fragment\<rparr>)
                           grp (parse_response translated), True),
                        state_at_check env grp number translated s1))"
    by simp
  from translate_settles [OF this] show ?thesis by blast
qed

text \<open>The answer numbers its lines, has spaces around them, and ends in a line feed and a
  no-break space.\<close>

theorem translate_assigns_on_match_witness:
  "getTranslation
       (example_config False (Finite 3)
          (always_answers (''1. Hola \<newline>  2. Adios\<newline>'' @ [CHR 0xA0])))
       initial_state (render_group [seg ''h1'' ''Hello.'', seg ''h2'' ''Goodbye.''])
     = Inr (Some (js ''1. Hola \<newline>  2. Adios\<newline>'' @ [0xA0]),
            initial_state\<lparr>net_log := [ChatCompletionsCreate (js ''1. Hello.\<newline>2. Goodbye.'')]\<rparr>)
   \<and> js ''1. Hola \<newline>  2. Adios\<newline>'' @ [0xA0] \<noteq> []
   \<and> length (parse_response (js ''1. Hola \<newline>  2. Adios\<newline>'' @ [0xA0]))
       = length [seg ''h1'' ''Hello.'', seg ''h2'' ''Goodbye.'']
   \<and> (\<exists>s'. translate
               (example_config False (Finite 3)
                  (always_answers (''1. Hola \<newline>  2. Adios\<newline>'' @ [CHR 0xA0])))
               initial_state [seg ''h1'' ''Hello.'', seg ''h2'' ''Goodbye.''] 0
             = Some (Inr (([(seg ''h1'' ''Hello.'')\<lparr>translatedContent := Some (js ''Hola'')\<rparr>,
                            (seg ''h2'' ''Goodbye.'')\<lparr>translatedContent := Some (js ''Adios'')\<rparr>],
                           True), s')))"
proof -
  let ?env = "example_config False (Finite 3)
                (always_answers (''1. Hola \<newline>  2. Adios\<newline>'' @ [CHR 0xA0]))"
  let ?grp = "[seg ''h1'' ''Hello.'', seg ''h2'' ''Goodbye.'']"
  let ?answer = "js ''1. Hola \<newline>  2. Adios\<newline>'' @ [0xA0]"
  have got: "getTranslation ?env initial_state (render_group ?grp)
     = Inr (Some ?answer,
            initial_state\<lparr>net_log := [ChatCompletionsCreate (js ''1. Hello.\<newline>2. Goodbye.'')]\<rparr>)"
    by (simp add: run_defs)
  have nonempty: "?answer \<noteq> []" by simp
  have parsed: "parse_response ?answer = [js ''Hola'', js ''Adios'']"
    by (simp add: run_defs)
  have count: "length (parse_response ?answer) = length ?grp"
    by (simp add: parsed)
  from translate_assigns_on_match [OF got nonempty count, of 0] got nonempty count
  show ?thesis by (simp add: parsed)
qed

lemma mismatching_attempts_Cons:
  "mismatching_attempts env s grp number (answer # later) \<longleftrightarrow>
     (\<exists>s1. getTranslation env s (render_group grp) = Inr (Some answer, s1)
        \<and> answer \<noteq> [] \<and> length (parse_response answer) \<noteq> length grp
        \<and> (if reached number (MAX_TRIES env) then later = []
           else (\<exists>s'. retry_state env grp number answer s1 = Inr s'
                     \<and> mismatching_attempts env s' grp (number + 1) later)))"
  by (auto split: sum.splits option.splits prod.splits)

text \<open>Claim C5. For every group, if every attempt up to the one at which the counter has
  reached \<open>MAX_TRIES\<close> obtains an answer that, parsed, has a number of fragments other than
  the number of segments, then \<open>translate\<close> returns false, leaves the group as it was given,
  so that it has set no \<open>translatedContent\<close>, and its last line on the console is the
  failure with the number of fragments of the last answer, which is not the number of
  segments, and the number of segments.\<close>

theorem translate_fails_when_every_attempt_mismatches:
  assumes "mismatching_attempts env s grp number answers"
  shows "\<exists>s'. translate env s grp number = Some (Inr ((grp, False), s'))
           \<and> console s' \<noteq> []
           \<and> last (console s')
               = LengthMismatchError (length (parse_response (last answers))) (length grp)
           \<and> length (parse_response (last answers)) \<noteq> length grp"
  using assms
proof (induction answers arbitrary: s number)
  case Nil
  then show ?case by simp
next
  case (Cons answer later)
  from Cons.prems obtain s1 where
    got: "getTranslation env s (render_group grp) = Inr (Some answer, s1)"
    and nonempty: "answer \<noteq> []"
    and differs: "length (parse_response answer) \<noteq> length grp"
    and rest: "if reached number (MAX_TRIES env) then later = []
           else (\<exists>s'. retry_state env grp number answer s1 = Inr s'
                     \<and> mismatching_attempts env s' grp (number + 1) later)"
    unfolding mismatching_attempts_Cons by blast
  show ?case
  proof (cases "reached number (MAX_TRIES env)")
    case True
    with rest have "later = []" by simp
    moreover from mismatch_cleanup_ok [OF got] obtain s4 where
      "mismatch_cleanup env grp number answer s1 = Inr s4" by blast
    with pass_exhausted [OF got nonempty differs True]
    have "translate_pass env s grp number =
        Settles (Inr ((grp, False),
           s4\<lparr>console := console s4 @
                [LengthMismatchError (length (parse_response answer)) (length grp)]\<rparr>))"
      by simp
    from translate_settles [OF this]
    have "translate env s grp number =
        Some (Inr ((grp, False),
           s4\<lparr>console := console s4 @
                [LengthMismatchError (length (parse_response answer)) (length grp)]\<rparr>))" .
    ultimately show ?thesis using differs by simp
  next
    case False
    with rest obtain s' where
      retry: "retry_state env grp number answer s1 = Inr s'"
      and again: "mismatching_attempts env s' grp (number + 1) later"
      by auto
    from again have "later \<noteq> []" by auto
    then have "last (answer # later) = last later" by simp
    moreover from pass_retry [OF got nonempty differs False] retry
    have "translate_pass env s grp number = CallsAgain s'" by simp
    from translate_calls_again [OF this]
    have "translate env s grp number = translate env s' grp (number + 1)" .
    ultimately show ?thesis using Cons.IH [OF again] by simp
  qed
qed

text \<open>The first answer has one line and the second has three, for a group of two: the
  failure reports three.\<close>

theorem translate_fails_when_every_attempt_mismatches_witness:
  "mismatching_attempts
     (example_config False (Finite 1)
        (answers_in_turn [''1. Hola'', ''1. Uno\<newline>2. Dos\<newline>3. Tres'']))
     initial_state [seg ''h1'' ''Hello.'', seg ''h2'' ''Goodbye.''] 0
     [js ''1. Hola'', js ''1. Uno\<newline>2. Dos\<newline>3. Tres'']
   \<and> (\<exists>s'. translate
               (example_config False (Finite 1)
                  (answers_in_turn [''1. Hola'', ''1. Uno\<newline>2. Dos\<newline>3. Tres'']))
               initial_state [seg ''h1'' ''Hello.'', seg ''h2'' ''Goodbye.''] 0
             = Some (Inr (([seg ''h1'' ''Hello.'', seg ''h2'' ''Goodbye.''], False), s'))
           \<and> console s' \<noteq> []
           \<and> last (console s') = LengthMismatchError 3 2)"
proof -
  let ?env = "example_config False (Finite 1)
                (answers_in_turn [''1. Hola'', ''1. Uno\<newline>2. Dos\<newline>3. Tres''])"
  let ?grp = "[seg ''h1'' ''Hello.'', seg ''h2'' ''Goodbye.'']"
  have every: "mismatching_attempts ?env initial_state ?grp 0
      [js ''1. Hola'', js ''1. Uno\<newline>2. Dos\<newline>3. Tres'']"
    by (simp add: retry_state_def mismatch_cleanup_def state_at_check_def run_defs)
  have observed: "length (parse_response (js ''1. Uno\<newline>2. Dos\<newline>3. Tres'')) = 3"
    by (simp add: run_defs)
  from translate_fails_when_every_attempt_mismatches [OF every]
  have "\<exists>s'. translate ?env initial_state ?grp 0 = Some (Inr ((?grp, False), s'))
           \<and> console s' \<noteq> []
           \<and> last (console s') = LengthMismatchError 3 2"
    by (simp add: observed numeral_2_eq_2)
  with every show ?thesis by blast
qed

text \<open>The hypothesis of C5 holds in direct mode whenever \<open>MAX_TRIES\<close> is finite and every
  answer of the endpoint mismatches. Where the counter never reaches \<open>MAX_TRIES\<close> no
  attempt is the last one, and the hypothesis holds of no answers.\<close>

lemma sync_mismatching_attempts:
  assumes "\<not> batch env" and "MAX_TRIES env = Finite m"
    and "\<forall>k. \<exists>c. chat_completions_create env k (render_group grp)
                    = Some \<lparr>finish_reason = js ''stop'', message_content = Some c\<rparr>
                \<and> c \<noteq> [] \<and> length (parse_response c) \<noteq> length grp"
  shows "\<exists>answers. mismatching_attempts env s grp number answers
           \<and> length answers = nat (m - number) + 1"
proof (induction "nat (m - number)" arbitrary: s number rule: less_induct)
  case less
  from assms(3) obtain c where
    c: "chat_completions_create env (length (net_log s)) (render_group grp)
          = Some \<lparr>finish_reason = js ''stop'', message_content = Some c\<rparr>"
      "c \<noteq> []" "length (parse_response c) \<noteq> length grp"
    by blast
  let ?s1 = "s\<lparr>net_log := net_log s @ [ChatCompletionsCreate (render_group grp)]\<rparr>"
  from assms(1) c(1) have got: "getTranslation env s (render_group grp) = Inr (Some c, ?s1)"
    by (simp add: getTranslation_def Let_def)
  show ?case
  proof (cases "reached number (MAX_TRIES env)")
    case True
    with got c(2,3) have "mismatching_attempts env s grp number [c]"
      unfolding mismatching_attempts_Cons by simp
    moreover from True assms(2) have "nat (m - number) = 0" by (simp add: reached_def)
    ultimately show ?thesis by (intro exI [of _ "[c]"]) simp
  next
    case False
    from retry_state_ok [OF got] obtain s' where
      retry: "retry_state env grp number c ?s1 = Inr s'" by blast
    from False assms(2) have below: "number < m" by (simp add: reached_def)
    then have "nat (m - (number + 1)) < nat (m - number)" by simp
    from less.hyps [OF this] obtain later where
      later: "mismatching_attempts env s' grp (number + 1) later"
        "length later = nat (m - (number + 1)) + 1"
      by blast
    from got c(2,3) False retry later(1) have "mismatching_attempts env s grp number (c # later)"
      unfolding mismatching_attempts_Cons by simp
    moreover from later(2) below have "length (c # later) = nat (m - number) + 1" by simp
    ultimately show ?thesis by blast
  qed
qed

lemma no_last_attempt_without_limit:
  assumes "MAX_TRIES env = NaN \<or> MAX_TRIES env = PlusInfinity"
  shows "\<not> mismatching_attempts env s grp number answers"
proof (induction answers arbitrary: s number)
  case Nil
  then show ?case by simp
next
  case (Cons answer later)
  from assms have "\<not> reached number (MAX_TRIES env)" by (auto simp: reached_def)
  with Cons.IH show ?case unfolding mismatching_attempts_Cons by auto
qed

text \<open>Claim C8, as stated: \<open>translate\<close> terminates for every input with at most the
  configured maximum number of attempts. It fails twice. The counter starts at zero and
  line 185 gives up once it has reached \<open>MAX_TRIES\<close>, which is after one attempt more: with
  \<open>MAX_TRIES\<close> set to one and an endpoint that always answers one line for a group of two,
  the endpoint is called twice. And \<open>MAX_TRIES\<close> is taken from the environment as it is:
  where it is not set, line 185 is never true, and against the same endpoint \<open>translate\<close>
  never returns.\<close>

theorem translate_attempts_exceed_max_tries_counterexample:
  "MAX_TRIES (example_config False (Finite 1) (always_answers ''1. Hola'')) = Finite 1
   \<and> translate (example_config False (Finite 1) (always_answers ''1. Hola'')) initial_state
       [seg ''h1'' ''Hello.'', seg ''h2'' ''Goodbye.''] 0
     = Some (Inr (([seg ''h1'' ''Hello.'', seg ''h2'' ''Goodbye.''], False),
            initial_state
              \<lparr>console := [LengthMismatchError 1 2],
               net_log := [ChatCompletionsCreate (js ''1. Hello.\<newline>2. Goodbye.''),
                           ChatCompletionsCreate (js ''1. Hello.\<newline>2. Goodbye.'')]\<rparr>))
   \<and> MAX_TRIES (example_config False NaN (always_answers ''1. Hola'')) = NaN
   \<and> translate (example_config False NaN (always_answers ''1. Hola'')) initial_state
       [seg ''h1'' ''Hello.'', seg ''h2'' ''Goodbye.''] 0
     = None"
proof -
  let ?grp = "[seg ''h1'' ''Hello.'', seg ''h2'' ''Goodbye.'']"
  let ?unset = "example_config False NaN (always_answers ''1. Hola'')"
  have direct: "\<not> batch ?unset" and unset: "MAX_TRIES ?unset = NaN"
    by (simp_all add: example_config_def)
  have answers: "\<forall>k. \<exists>c. chat_completions_create ?unset k (render_group ?grp)
                    = Some \<lparr>finish_reason = js ''stop'', message_content = Some c\<rparr>
                \<and> c \<noteq> [] \<and> length (parse_response c) \<noteq> length ?grp"
    by (simp add: run_defs)
  from unset have "MAX_TRIES ?unset = NaN \<or> MAX_TRIES ?unset = PlusInfinity" by simp
  from translate_never_returns [OF direct this answers]
  have never: "translate ?unset initial_state ?grp 0 = None" .
  let ?one = "example_config False (Finite 1) (always_answers ''1. Hola'')"
  have one: "MAX_TRIES ?one = Finite 1" by (simp add: example_config_def)
  have twice: "translate ?one initial_state ?grp 0
     = Some (Inr ((?grp, False),
            initial_state
              \<lparr>console := [LengthMismatchError 1 2],
               net_log := [ChatCompletionsCreate (js ''1. Hello.\<newline>2. Goodbye.''),
                           ChatCompletionsCreate (js ''1. Hello.\<newline>2. Goodbye.'')]\<rparr>))"
    by (simp add: translate.simps translate_pass_def run_defs)
  from one twice unset never show ?thesis by (intro conjI)
qed

text \<open>Claim C8, amended. On a mismatch at which the counter has not reached \<open>MAX_TRIES\<close>,
  \<open>translate\<close> calls itself on the whole group with the counter increased by one, and every
  request that a call of \<open>translate\<close> has sent when it returns or throws carries the text of
  the whole group. Where \<open>MAX_TRIES\<close> is a number \<open>m\<close>, the recursion is bounded by
  \<open>m - number\<close>: \<open>translate\<close> returns or throws on every input, after one attempt and at
  most \<open>m - number\<close> retries, none when the counter is at \<open>m\<close> or above.\<close>

theorem translate_retries_whole_group_bounded:
  "(\<forall>translated s1.
      getTranslation env s (render_group grp) = Inr (Some translated, s1)
      \<longrightarrow> translated \<noteq> [] \<longrightarrow> length (parse_response translated) \<noteq> length grp
      \<longrightarrow> \<not> reached number (MAX_TRIES env)
      \<longrightarrow> (\<exists>s'. retry_state env grp number translated s1 = Inr s'
                \<and> translate env s grp number = translate env s' grp (number + 1)))
   \<and> (\<forall>r. translate env s grp number = Some r
      \<longrightarrow> (\<exists>k. net_log (outcome_state r)
                  = net_log s @ replicate k (ChatCompletionsCreate (render_group grp))))
   \<and> (\<forall>m. MAX_TRIES env = Finite m
      \<longrightarrow> (\<exists>r k. translate env s grp number = Some r
                \<and> net_log (outcome_state r)
                    = net_log s @ replicate k (ChatCompletionsCreate (render_group grp))
                \<and> k \<le> nat (m - number) + 1))"
proof (intro conjI allI impI)
  fix translated s1
  assume got: "getTranslation env s (render_group grp) = Inr (Some translated, s1)"
    and nonempty: "translated \<noteq> []"
    and differs: "length (parse_response translated) \<noteq> length grp"
    and below: "\<not> reached number (MAX_TRIES env)"
  from retry_state_ok [OF got] obtain s' where
    retry: "retry_state env grp number translated s1 = Inr s'" by blast
  with pass_retry [OF got nonempty differs below]
  have "translate_pass env s grp number = CallsAgain s'" by simp
  from translate_calls_again [OF this] retry
  show "\<exists>s'. retry_state env grp number translated s1 = Inr s'
                \<and> translate env s grp number = translate env s' grp (number + 1)"
    by blast
next
  fix r
  assume "translate env s grp number = Some r"
  from translate_effect [OF this]
  show "\<exists>k. net_log (outcome_state r)
                  = net_log s @ replicate k (ChatCompletionsCreate (render_group grp))"
    by blast
next
  fix m
  assume finite: "MAX_TRIES env = Finite m"
  from translate_returns [OF this] obtain r where
    r: "translate env s grp number = Some r" by blast
  from translate_effect [OF r] finite obtain k where
    "net_log (outcome_state r)
       = net_log s @ replicate k (ChatCompletionsCreate (render_group grp))"
    "k \<le> nat (m - number) + 1"
    by blast
  with r show "\<exists>r k. translate env s grp number = Some r
                \<and> net_log (outcome_state r)
                    = net_log s @ replicate k (ChatCompletionsCreate (render_group grp))
                \<and> k \<le> nat (m - number) + 1"
    by blast
qed

theorem translate_retries_whole_group_bounded_witness:
  "getTranslation (example_config False (Finite 1) (always_answers ''1. Hola'')) initial_state
       (render_group [seg ''h1'' ''Hello.'', seg ''h2'' ''Goodbye.''])
     = Inr (Some (js ''1. Hola''),
            initial_state\<lparr>net_log := [ChatCompletionsCreate (js ''1. Hello.\<newline>2. Goodbye.'')]\<rparr>)
   \<and> js ''1. Hola'' \<noteq> []
   \<and> length (parse_response (js ''1. Hola''))
       \<noteq> length [seg ''h1'' ''Hello.'', seg ''h2'' ''Goodbye.'']
   \<and> \<not> reached 0 (MAX_TRIES (example_config False (Finite 1) (always_answers ''1. Hola'')))
   \<and> (\<exists>s'. retry_state (example_config False (Finite 1) (always_answers ''1. Hola''))
               [seg ''h1'' ''Hello.'', seg ''h2'' ''Goodbye.''] 0 (js ''1. Hola'')
               (initial_state\<lparr>net_log := [ChatCompletionsCreate (js ''1. Hello.\<newline>2. Goodbye.'')]\<rparr>)
             = Inr s'
           \<and> translate (example_config False (Finite 1) (always_answers ''1. Hola'')) initial_state
               [seg ''h1'' ''Hello.'', seg ''h2'' ''Goodbye.''] 0
             = translate (example_config False (Finite 1) (always_answers ''1. Hola'')) s'
                 [seg ''h1'' ''Hello.'', seg ''h2'' ''Goodbye.''] (0 + 1))
   \<and> translate (example_config False (Finite 1) (always_answers ''1. Hola'')) initial_state
         [seg ''h1'' ''Hello.'', seg ''h2'' ''Goodbye.''] 0
       = Some (Inr (([seg ''h1'' ''Hello.'', seg ''h2'' ''Goodbye.''], False),
            initial_state
              \<lparr>console := [LengthMismatchError 1 2],
               net_log := [ChatCompletionsCreate (js ''1. Hello.\<newline>2. Goodbye.''),
                           ChatCompletionsCreate (js ''1. Hello.\<newline>2. Goodbye.'')]\<rparr>))
   \<and> (\<exists>k. net_log (outcome_state
               (Inr (([seg ''h1'' ''Hello.'', seg ''h2'' ''Goodbye.''], False),
                  initial_state
                    \<lparr>console := [LengthMismatchError 1 2],
                     net_log := [ChatCompletionsCreate (js ''1. Hello.\<newline>2. Goodbye.''),
                                 ChatCompletionsCreate (js ''1. Hello.\<newline>2. Goodbye.'')]\<rparr>)))
             = net_log initial_state @
                 replicate k (ChatCompletionsCreate
                    (render_group [seg ''h1'' ''Hello.'', seg ''h2'' ''Goodbye.''])))
   \<and> MAX_TRIES (example_config False (Finite 1) (always_answers ''1. Hola'')) = Finite 1
   \<and> (\<exists>r k. translate (example_config False (Finite 1) (always_answers ''1. Hola''))
                 initial_state [seg ''h1'' ''Hello.'', seg ''h2'' ''Goodbye.''] 0
               = Some r
             \<and> net_log (outcome_state r)
                 = net_log initial_state @
                     replicate k (ChatCompletionsCreate
                        (render_group [seg ''h1'' ''Hello.'', seg ''h2'' ''Goodbye.'']))
             \<and> k \<le> nat (1 - 0) + 1)"
proof -
  let ?env = "example_config False (Finite 1) (always_answers ''1. Hola'')"
  let ?grp = "[seg ''h1'' ''Hello.'', seg ''h2'' ''Goodbye.'']"
  have got: "getTranslation ?env initial_state (render_group ?grp)
     = Inr (Some (js ''1. Hola''),
            initial_state\<lparr>net_log := [ChatCompletionsCreate (js ''1. Hello.\<newline>2. Goodbye.'')]\<rparr>)"
    by (simp add: run_defs)
  have nonempty: "js ''1. Hola'' \<noteq> []" by (simp add: js_def)
  have differs: "length (parse_response (js ''1. Hola'')) \<noteq> length ?grp"
    by (simp add: run_defs)
  have below: "\<not> reached 0 (MAX_TRIES ?env)" by (simp add: example_config_def reached_def)
  have finite: "MAX_TRIES ?env = Finite 1" by (simp add: example_config_def)
  have twice: "translate ?env initial_state ?grp 0
       = Some (Inr ((?grp, False),
            initial_state
              \<lparr>console := [LengthMismatchError 1 2],
               net_log := [ChatCompletionsCreate (js ''1. Hello.\<newline>2. Goodbye.''),
                           ChatCompletionsCreate (js ''1. Hello.\<newline>2. Goodbye.'')]\<rparr>))"
    by (simp add: translate.simps translate_pass_def run_defs)
  from translate_retries_whole_group_bounded [of ?env initial_state ?grp 0]
    got nonempty differs below finite twice
  show ?thesis by blast
qed

text \<open>Claim C9. For every call of \<open>translate\<close> with an attempt number above three that
  obtains an output from the translation client, the prompt, the input and the output are
  appended to the error corpus and the corpus file is rewritten, before the lengths are
  compared: the activation settles, or calls again, with the corpus extended by this one
  entry and the file holding the corpus. When the call ends, whether the attempt succeeds, is retried or is the
  last one, the corpus holds the entry and the file holds the corpus. And the call does end
  where \<open>MAX_TRIES\<close> is a number.\<close>

theorem translate_logs_most_errored:
  assumes "3 < number"
    and "getTranslation env s (render_group grp) = Inr (Some translated, s1)"
    and "translated \<noteq> []"
  shows "mostErrored (pass_state (translate_pass env s grp number))
           = mostErrored s @
               [\<lparr>er_prompt = prompt env, er_input = render_group grp, er_output = translated\<rparr>]
       \<and> most_errored_file (pass_state (translate_pass env s grp number))
           = mostErrored (pass_state (translate_pass env s grp number))
       \<and> (\<forall>r. translate env s grp number = Some r \<longrightarrow>
             (\<exists>more. mostErrored (outcome_state r)
                = mostErrored s @
                    \<lparr>er_prompt = prompt env, er_input = render_group grp, er_output = translated\<rparr>
                    # more)
             \<and> most_errored_file (outcome_state r) = mostErrored (outcome_state r))
       \<and> (\<forall>m. MAX_TRIES env = Finite m \<longrightarrow> (\<exists>r. translate env s grp number = Some r))"
proof -
  let ?entry = "\<lparr>er_prompt = prompt env, er_input = render_group grp, er_output = translated\<rparr>"
  let ?after = "pass_state (translate_pass env s grp number)"
  from translate_pass_effect [of env grp number s] assms
  have logged: "mostErrored ?after = mostErrored s @ [?entry]"
    and on_file: "most_errored_file ?after = mostErrored ?after"
    by (simp_all add: pass_effect_def)
  have ended: "(\<exists>more. mostErrored (outcome_state r) = mostErrored s @ ?entry # more)
             \<and> most_errored_file (outcome_state r) = mostErrored (outcome_state r)"
    if r: "translate env s grp number = Some r" for r
  proof (cases "translate_pass env s grp number")
    case (Settles r')
    with r translate_settles [OF Settles] have "r' = r" by simp
    with Settles logged on_file show ?thesis by simp
  next
    case (CallsAgain s')
    with r translate_calls_again [OF CallsAgain]
    have later: "translate env s' grp (number + 1) = Some r" by simp
    from CallsAgain logged on_file
    have s': "mostErrored s' = mostErrored s @ [?entry]" "most_errored_file s' = mostErrored s'"
      by simp_all
    from translate_effect [OF later] obtain more where
      "mostErrored (outcome_state r) = mostErrored s' @ more"
      by blast
    moreover from translate_effect [OF later] s'(2) assms(1)
    have "most_errored_file (outcome_state r) = mostErrored (outcome_state r)"
      by simp
    ultimately show ?thesis by (simp add: s'(1))
  qed
  have "\<exists>r. translate env s grp number = Some r" if "MAX_TRIES env = Finite m" for m
    using that by (rule translate_returns)
  with logged on_file ended show ?thesis by blast
qed

theorem translate_logs_most_errored_witness:
  "(3::int) < 4
   \<and> getTranslation (example_config False (Finite 5) (always_answers ''1. Hola'')) initial_state
         (render_group [seg ''h1'' ''Hello.'', seg ''h2'' ''Goodbye.''])
       = Inr (Some (js ''1. Hola''),
              initial_state\<lparr>net_log := [ChatCompletionsCreate (js ''1. Hello.\<newline>2. Goodbye.'')]\<rparr>)
   \<and> js ''1. Hola'' \<noteq> []
   \<and> MAX_TRIES (example_config False (Finite 5) (always_answers ''1. Hola'')) = Finite 5
   \<and> mostErrored (pass_state
         (translate_pass (example_config False (Finite 5) (always_answers ''1. Hola''))
            initial_state [seg ''h1'' ''Hello.'', seg ''h2'' ''Goodbye.''] 4))
       = [\<lparr>er_prompt = js ''You are an experienced semantic translator.'',
           er_input = js ''1. Hello.\<newline>2. Goodbye.'', er_output = js ''1. Hola''\<rparr>]
   \<and> (\<exists>r more.
         translate (example_config False (Finite 5) (always_answers ''1. Hola'')) initial_state
            [seg ''h1'' ''Hello.'', seg ''h2'' ''Goodbye.''] 4 = Some r
         \<and> mostErrored (outcome_state r)
             = \<lparr>er_prompt = js ''You are an experienced semantic translator.'',
                er_input = js ''1. Hello.\<newline>2. Goodbye.'', er_output = js ''1. Hola''\<rparr> # more
         \<and> most_errored_file (outcome_state r) = mostErrored (outcome_state r))"
proof -
  let ?env = "example_config False (Finite 5) (always_answers ''1. Hola'')"
  let ?grp = "[seg ''h1'' ''Hello.'', seg ''h2'' ''Goodbye.'']"
  let ?entry = "\<lparr>er_prompt = js ''You are an experienced semantic translator.'',
           er_input = js ''1. Hello.\<newline>2. Goodbye.'', er_output = js ''1. Hola''\<rparr>"
  have above: "(3::int) < 4" by simp
  have got: "getTranslation ?env initial_state (render_group ?grp)
       = Inr (Some (js ''1. Hola''),
              initial_state\<lparr>net_log := [ChatCompletionsCreate (js ''1. Hello.\<newline>2. Goodbye.'')]\<rparr>)"
    by (simp add: run_defs)
  have nonempty: "js ''1. Hola'' \<noteq> []" by (simp add: js_def)
  have finite: "MAX_TRIES ?env = Finite 5" by (simp add: example_config_def)
  have entry: "\<lparr>er_prompt = prompt ?env, er_input = render_group ?grp, er_output = js ''1. Hola''\<rparr>
      = ?entry"
    by (simp add: run_defs)
  have start: "mostErrored initial_state = []" by (simp add: initial_state_def)
  note logs = translate_logs_most_errored [OF above got nonempty, unfolded entry start append_Nil]
  from logs finite obtain r where r: "translate ?env initial_state ?grp 4 = Some r"
    by blast
  with logs have "\<exists>more. mostErrored (outcome_state r) = ?entry # more"
    and "most_errored_file (outcome_state r) = mostErrored (outcome_state r)"
    by blast+
  with r have "\<exists>r more. translate ?env initial_state ?grp 4 = Some r
         \<and> mostErrored (outcome_state r) = ?entry # more
         \<and> most_errored_file (outcome_state r) = mostErrored (outcome_state r)"
    by blast
  with logs above got nonempty finite show ?thesis by blast
qed

section \<open>Properties of the translation client in batch mode\<close>

lemma find_append_None:
  "find P xs = None \<Longrightarrow> find P (xs @ ys) = find P ys"
  by (induction xs) (auto split: if_splits)

lemma getTranslation_batch_queued:
  assumes "batch env" and "getTranslation env s text = Inr (r, s1)" and "toBatch s1 \<noteq> toBatch s"
  shows "find (has_request text) (jobs s) = None"
    and "jobs s1 = jobs s"
    and "text \<in> body_text ` set (toBatch s1)"
  using assms
  by (auto simp: getTranslation_def split: option.splits if_splits)

lemma batchTranslations_submits:
  assumes "batchTranslations env s = Inr ((), s')" and "toBatch s \<noteq> []"
  shows "\<exists>batch_id. jobs s' = jobs s @
           [\<lparr>job_id = batch_id, finished = False,
             requests = map (\<lambda>b. \<lparr>rcontent = body_text b, rid = batch_id, result = None\<rparr>)
                          (toBatch s)\<rparr>]"
    and "toBatch s' = []"
    and "cache_file s' = jobs s'"
  using assms
  by (auto simp: batchTranslations_def Let_def split: option.splits if_splits)

text \<open>Claim C6, as stated: in batch mode a second request for a text not yet resolved
  creates no second pending request. It fails when both requests come before
  \<open>batchTranslations\<close>: \<open>getTranslation\<close> looks the text up in \<open>jobs\<close> only, never in
  \<open>toBatch\<close>, so each request pushes an entry of its own.\<close>

theorem same_text_is_queued_twice_counterexample:
  "getTranslation (example_config True (Finite 3) unreachable) initial_state (js ''1. Hello.'')
     = Inr (None, initial_state\<lparr>toBatch := [\<lparr>custom_id = js ''0'', body_text = js ''1. Hello.''\<rparr>],
                                random_draws := 1\<rparr>)
   \<and> getTranslation (example_config True (Finite 3) unreachable)
       (initial_state\<lparr>toBatch := [\<lparr>custom_id = js ''0'', body_text = js ''1. Hello.''\<rparr>],
                      random_draws := 1\<rparr>) (js ''1. Hello.'')
     = Inr (None, initial_state\<lparr>toBatch := [\<lparr>custom_id = js ''0'', body_text = js ''1. Hello.''\<rparr>,
                                            \<lparr>custom_id = js ''1'', body_text = js ''1. Hello.''\<rparr>],
                                random_draws := 2\<rparr>)"
  by (simp add: run_defs)

text \<open>Claim C6, amended. In batch mode, once a request that was queued has been submitted
  by \<open>batchTranslations\<close>, a further request for the same text creates no pending request:
  it finds the text in the job store, returns no translation, which is how the client says
  queued, and leaves the state, with its empty pending list, as it is.\<close>

theorem submitted_text_is_not_queued_again:
  assumes "batch env"
    and "getTranslation env s text = Inr (r, s1)" and "toBatch s1 \<noteq> toBatch s"
    and "batchTranslations env s1 = Inr ((), s2)"
  shows "getTranslation env s2 text = Inr (None, s2) \<and> toBatch s2 = []"
proof -
  note queued = getTranslation_batch_queued [OF assms(1-3)]
  from queued(3) have pending: "toBatch s1 \<noteq> []" by auto
  from batchTranslations_submits [OF assms(4) pending] obtain batch_id where
    jobs2: "jobs s2 = jobs s1 @
           [\<lparr>job_id = batch_id, finished = False,
             requests = map (\<lambda>b. \<lparr>rcontent = body_text b, rid = batch_id, result = None\<rparr>)
                          (toBatch s1)\<rparr>]"
    and empty: "toBatch s2 = []"
    by blast
  let ?job = "\<lparr>job_id = batch_id, finished = False,
             requests = map (\<lambda>b. \<lparr>rcontent = body_text b, rid = batch_id, result = None\<rparr>)
                          (toBatch s1)\<rparr>"
  from queued(3) have "\<exists>q \<in> set (requests ?job). rcontent q = text"
    by auto
  then have "has_request text ?job"
    by (simp add: has_request_def find_None_iff)
  with queued(1,2) jobs2 have "find (has_request text) (jobs s2) = Some ?job"
    by (simp add: find_append_None)
  with assms(1) empty show ?thesis
    by (simp add: getTranslation_def)
qed

theorem submitted_text_is_not_queued_again_witness:
  "batch batch_config
   \<and> getTranslation batch_config initial_state (js ''1. Hello.'')
       = Inr (None, initial_state\<lparr>toBatch := [\<lparr>custom_id = js ''0'', body_text = js ''1. Hello.''\<rparr>],
                                  random_draws := 1\<rparr>)
   \<and> toBatch (initial_state\<lparr>toBatch := [\<lparr>custom_id = js ''0'', body_text = js ''1. Hello.''\<rparr>],
                             random_draws := 1\<rparr>) \<noteq> toBatch initial_state
   \<and> batchTranslations batch_config
         (initial_state\<lparr>toBatch := [\<lparr>custom_id = js ''0'', body_text = js ''1. Hello.''\<rparr>],
                        random_draws := 1\<rparr>)
       = Inr ((), initial_state
                \<lparr>jobs := [\<lparr>job_id = js ''batch_1'', finished = False,
                           requests = [\<lparr>rcontent = js ''1. Hello.'', rid = js ''batch_1'',
                                        result = None\<rparr>]\<rparr>],
                 cache_file := [\<lparr>job_id = js ''batch_1'', finished = False,
                                 requests = [\<lparr>rcontent = js ''1. Hello.'', rid = js ''batch_1'',
                                              result = None\<rparr>]\<rparr>],
                 console := [Batching 1, SuccessfullyBatched 1],
                 net_log := [FilesCreate [\<lparr>custom_id = js ''0'', body_text = js ''1. Hello.''\<rparr>],
                             BatchesCreate (js ''file-in'')],
                 random_draws := 1\<rparr>)
   \<and> getTranslation batch_config
         (initial_state
            \<lparr>jobs := [\<lparr>job_id = js ''batch_1'', finished = False,
                       requests = [\<lparr>rcontent = js ''1. Hello.'', rid = js ''batch_1'',
                                    result = None\<rparr>]\<rparr>],
             cache_file := [\<lparr>job_id = js ''batch_1'', finished = False,
                             requests = [\<lparr>rcontent = js ''1. Hello.'', rid = js ''batch_1'',
                                          result = None\<rparr>]\<rparr>],
             console := [Batching 1, SuccessfullyBatched 1],
             net_log := [FilesCreate [\<lparr>custom_id = js ''0'', body_text = js ''1. Hello.''\<rparr>],
                         BatchesCreate (js ''file-in'')],
             random_draws := 1\<rparr>) (js ''1. Hello.'')
       = Inr (None, initial_state
                \<lparr>jobs := [\<lparr>job_id = js ''batch_1'', finished = False,
                           requests = [\<lparr>rcontent = js ''1. Hello.'', rid = js ''batch_1'',
                                        result = None\<rparr>]\<rparr>],
                 cache_file := [\<lparr>job_id = js ''batch_1'', finished = False,
                                 requests = [\<lparr>rcontent = js ''1. Hello.'', rid = js ''batch_1'',
                                              result = None\<rparr>]\<rparr>],
                 console := [Batching 1, SuccessfullyBatched 1],
                 net_log := [FilesCreate [\<lparr>custom_id = js ''0'', body_text = js ''1. Hello.''\<rparr>],
                             BatchesCreate (js ''file-in'')],
                 random_draws := 1\<rparr>)"
proof -
  let ?queued = "initial_state\<lparr>toBatch := [\<lparr>custom_id = js ''0'', body_text = js ''1. Hello.''\<rparr>],
                               random_draws := 1\<rparr>"
  let ?submitted = "initial_state
                \<lparr>jobs := [\<lparr>job_id = js ''batch_1'', finished = False,
                           requests = [\<lparr>rcontent = js ''1. Hello.'', rid = js ''batch_1'',
                                        result = None\<rparr>]\<rparr>],
                 cache_file := [\<lparr>job_id = js ''batch_1'', finished = False,
                                 requests = [\<lparr>rcontent = js ''1. Hello.'', rid = js ''batch_1'',
                                              result = None\<rparr>]\<rparr>],
                 console := [Batching 1, SuccessfullyBatched 1],
                 net_log := [FilesCreate [\<lparr>custom_id = js ''0'', body_text = js ''1. Hello.''\<rparr>],
                             BatchesCreate (js ''file-in'')],
                 random_draws := 1\<rparr>"
  have mode: "batch batch_config"
    by (simp add: batch_config_def example_config_def)
  have first: "getTranslation batch_config initial_state (js ''1. Hello.'') = Inr (None, ?queued)"
    by (simp add: batch_config_def run_defs)
  have queued: "toBatch ?queued \<noteq> toBatch initial_state"
    by (simp add: initial_state_def)
  have submit: "batchTranslations batch_config ?queued = Inr ((), ?submitted)"
    by (simp add: batchTranslations_def batch_config_def accepts_upload_def accepts_batch_def
          run_defs)
  from submitted_text_is_not_queued_again [OF mode first queued submit] mode first queued submit
  show ?thesis by simp
qed

section \<open>Properties of the poll cycle\<close>

lemma assign_results_all:
  assumes "length results = length todo"
  shows "assign_results (before @ todo) (length before) (map Content results)
           = (before @ with_results todo results, True)"
  using assms
proof (induction results arbitrary: before todo)
  case Nil
  then show ?case by (simp add: with_results_def)
next
  case (Cons c results)
  then obtain r rest where todo: "todo = r # rest" and len: "length results = length rest"
    by (cases todo) auto
  have "assign_results ((before @ [r\<lparr>result := c\<rparr>]) @ rest) (length (before @ [r\<lparr>result := c\<rparr>]))
          (map Content results)
        = ((before @ [r\<lparr>result := c\<rparr>]) @ with_results rest results, True)"
    by (rule Cons.IH [OF len])
  then show ?case
    by (simp add: todo with_results_def nth_append list_update_append)
qed

lemma assign_results_complete:
  "length results = length reqs
     \<Longrightarrow> assign_results reqs 0 (map Content results) = (with_results reqs results, True)"
  using assign_results_all [of results reqs "[]"] by simp

lemma with_results_fields:
  assumes "length results = length reqs"
  shows "map result (with_results reqs results) = results"
    and "map rcontent (with_results reqs results) = map rcontent reqs"
  using assms
  by (induction reqs results rule: list_induct2') (simp_all add: with_results_def)

lemma set_current_jobs: "set (current_jobs cur) = {j. Some j \<in> set cur}"
  unfolding current_jobs_def
  by (induction cur) (auto simp: map_filter_simps split: option.splits)

lemma print_error_lines_net_log:
  "print_error_lines lines s = r
     \<Longrightarrow> net_log (case r of Inl (thrown, s') \<Rightarrow> s' | Inr s' \<Rightarrow> s') = net_log s"
  by (induction lines arbitrary: s r) (auto split: option.splits)

lemma mutate_at_length [simp]: "length (mutate_at i j cur) = length cur"
  by (simp add: mutate_at_def)

lemma remove_id_length [simp]: "length (remove_id jid cur) = length cur"
  by (simp add: remove_id_def)

lemma mutate_at_nth:
  "k < length cur \<Longrightarrow>
     mutate_at i j cur ! k = (if k = i \<and> cur ! i \<noteq> None then Some j else cur ! k)"
  by (auto simp: mutate_at_def)

lemma remove_id_nth:
  "k < length cur \<Longrightarrow>
     remove_id jid cur ! k =
       (case cur ! k of None \<Rightarrow> None | Some j \<Rightarrow> if job_id j \<noteq> jid then Some j else None)"
  by (simp add: remove_id_def)

text \<open>The shapes in which an iteration can leave \<open>jobs\<close>.\<close>

lemma poll_job_shape:
  "poll_cur (poll_job env i job (cur, s)) = cur
   \<or> poll_cur (poll_job env i job (cur, s)) = remove_id (job_id job) cur
   \<or> (\<exists>reqs. poll_cur (poll_job env i job (cur, s))
          = mutate_at i (job\<lparr>requests := reqs, finished := True\<rparr>) cur)
   \<or> (\<exists>reqs. poll_cur (poll_job env i job (cur, s)) = mutate_at i (job\<lparr>requests := reqs\<rparr>) cur)"
  by (auto simp: poll_job_def poll_cur_def Let_def
           split: if_splits option.splits sum.splits prod.splits bool.splits)

lemma poll_job_result:
  assumes "poll_job env i job (cur, s) = Inr (cur', s')"
  shows "cur' = cur \<or> cur' = remove_id (job_id job) cur
         \<or> (\<exists>reqs. cur' = mutate_at i (job\<lparr>requests := reqs, finished := True\<rparr>) cur)"
  using assms
  by (auto simp: poll_job_def Let_def
           split: if_splits option.splits sum.splits prod.splits bool.splits)

lemma remove_id_Some:
  "k < length cur \<Longrightarrow> remove_id jid cur ! k = Some j
     \<Longrightarrow> cur ! k = Some j \<and> job_id j \<noteq> jid"
  by (cases "cur ! k") (simp_all add: remove_id_nth split: if_splits)

lemma remove_id_keeps:
  "k < length cur \<Longrightarrow> cur ! k = Some j \<Longrightarrow> job_id j \<noteq> jid
     \<Longrightarrow> remove_id jid cur ! k = Some j"
  by (simp add: remove_id_nth)

lemma alignedI:
  assumes "length cur = length snapshot"
    and "\<And>k j. k < length snapshot \<Longrightarrow> cur ! k = Some j
           \<Longrightarrow> job_id j = job_id (snapshot ! k) \<and> (finished (snapshot ! k) \<longrightarrow> finished j)"
  shows "aligned snapshot cur"
  using assms unfolding aligned_def by blast

lemma alignedD:
  assumes "aligned snapshot cur" and "k < length snapshot" and "cur ! k = Some j"
  shows "job_id j = job_id (snapshot ! k) \<and> (finished (snapshot ! k) \<longrightarrow> finished j)"
  using assms unfolding aligned_def by blast

lemma aligned_length: "aligned snapshot cur \<Longrightarrow> length cur = length snapshot"
  unfolding aligned_def by blast

lemma aligned_remove_id:
  assumes "aligned snapshot cur"
  shows "aligned snapshot (remove_id jid cur)"
proof (rule alignedI)
  from assms show "length (remove_id jid cur) = length snapshot"
    by (simp add: aligned_length)
next
  fix k j
  assume k: "k < length snapshot" and entry: "remove_id jid cur ! k = Some j"
  from assms k have "k < length cur" by (simp add: aligned_length)
  from remove_id_Some [OF this entry] have "cur ! k = Some j" by simp
  with assms k
  show "job_id j = job_id (snapshot ! k) \<and> (finished (snapshot ! k) \<longrightarrow> finished j)"
    by (rule alignedD)
qed

lemma aligned_mutate_at:
  assumes "aligned snapshot cur" and "i < length snapshot"
    and "job_id job' = job_id (snapshot ! i)"
    and "finished (snapshot ! i) \<longrightarrow> finished job'"
  shows "aligned snapshot (mutate_at i job' cur)"
proof (rule alignedI)
  from assms(1) show "length (mutate_at i job' cur) = length snapshot"
    by (simp add: aligned_length)
next
  fix k j
  assume k: "k < length snapshot" and entry: "mutate_at i job' cur ! k = Some j"
  from assms(1) k have len: "k < length cur" by (simp add: aligned_length)
  show "job_id j = job_id (snapshot ! k) \<and> (finished (snapshot ! k) \<longrightarrow> finished j)"
  proof (cases "k = i \<and> cur ! i \<noteq> None")
    case True
    with entry len have "j = job'" by (simp add: mutate_at_nth)
    with True assms(3,4) show ?thesis by simp
  next
    case False
    with entry len have "cur ! k = Some j"
      by (auto simp: mutate_at_nth split: if_splits)
    with assms(1) k show ?thesis by (rule alignedD)
  qed
qed

lemma poll_job_aligned_any:
  assumes "aligned snapshot cur" and "i < length snapshot" and "job = snapshot ! i"
    and "finished job \<longrightarrow> poll_cur (poll_job env i job (cur, s)) = cur"
  shows "aligned snapshot (poll_cur (poll_job env i job (cur, s)))"
  using poll_job_shape [of env i job cur s]
proof (elim disjE exE)
  assume "poll_cur (poll_job env i job (cur, s)) = cur"
  with assms(1) show ?thesis by simp
next
  assume "poll_cur (poll_job env i job (cur, s)) = remove_id (job_id job) cur"
  with aligned_remove_id [OF assms(1)] show ?thesis by simp
next
  fix reqs
  assume "poll_cur (poll_job env i job (cur, s))
            = mutate_at i (job\<lparr>requests := reqs, finished := True\<rparr>) cur"
  with aligned_mutate_at [OF assms(1,2), of "job\<lparr>requests := reqs, finished := True\<rparr>"] assms(3)
  show ?thesis by simp
next
  fix reqs
  assume mutated: "poll_cur (poll_job env i job (cur, s)) = mutate_at i (job\<lparr>requests := reqs\<rparr>) cur"
  show ?thesis
  proof (cases "finished job")
    case True
    with assms(1,4) show ?thesis by simp
  next
    case False
    with aligned_mutate_at [OF assms(1,2), of "job\<lparr>requests := reqs\<rparr>"] assms(3) mutated
    show ?thesis by simp
  qed
qed

lemma poll_job_finished_skips:
  "finished job \<Longrightarrow> poll_job env i job (cur, s) = Inr (cur, s)"
  by (simp add: poll_job_def)

lemma poll_job_aligned:
  assumes "aligned snapshot cur" and "i < length snapshot" and "job = snapshot ! i"
  shows "aligned snapshot (poll_cur (poll_job env i job (cur, s)))"
  using assms
  by (intro poll_job_aligned_any) (simp_all add: poll_job_finished_skips poll_cur_def)

lemma poll_job_other:
  assumes "poll_job env i job (cur, s) = Inr (cur', s')"
    and "aligned snapshot cur" and "i < length snapshot" and "job = snapshot ! i"
    and "distinct (map job_id snapshot)" and "t < length snapshot" and "t \<noteq> i"
  shows "cur' ! t = cur ! t"
proof -
  have "map job_id snapshot ! t \<noteq> map job_id snapshot ! i"
    using assms(3,5,6,7) nth_eq_iff_index_eq [of "map job_id snapshot" t i] by simp
  with assms(3,6) have ids: "job_id (snapshot ! t) \<noteq> job_id (snapshot ! i)"
    by simp
  from assms(2,6) have t: "t < length cur"
    by (simp add: aligned_length)
  have entry: "job_id j = job_id (snapshot ! t)" if "cur ! t = Some j" for j
    using alignedD [OF assms(2,6) that] by blast
  from poll_job_result [OF assms(1)] show ?thesis
  proof (elim disjE exE)
    assume "cur' = cur"
    then show ?thesis by simp
  next
    assume removed: "cur' = remove_id (job_id job) cur"
    show ?thesis
    proof (cases "cur ! t")
      case None
      with t removed show ?thesis by (simp add: remove_id_nth)
    next
      case (Some j)
      with entry ids assms(4) have "job_id j \<noteq> job_id job" by simp
      with remove_id_keeps [OF t Some] removed Some show ?thesis by simp
    qed
  next
    fix reqs
    assume "cur' = mutate_at i (job\<lparr>requests := reqs, finished := True\<rparr>) cur"
    with t assms(7) show ?thesis by (simp add: mutate_at_nth)
  qed
qed

lemma poll_job_target:
  assumes "\<not> finished job"
    and "\<forall>k. \<exists>b. batches_retrieve env k (job_id job) = Some b
              \<and> status b = js ''completed'' \<and> output_file_id b = Some file_id"
    and "\<forall>k. output_file_content env k file_id = Inr (map Content results)"
    and "length results = length (requests job)"
    and "poll_job env t job (cur, s) = Inr (cur', s')"
    and "t < length cur" and "cur ! t = Some job"
  shows "cur' ! t = Some (job\<lparr>requests := with_results (requests job) results,
                              finished := True\<rparr>)"
proof -
  from assms(2) obtain b where
    b: "batches_retrieve env (length (net_log s)) (job_id job) = Some b"
      "status b = (js ''completed'')" "output_file_id b = Some file_id"
    by blast
  from assms(3) have f: "output_file_content env (Suc (length (net_log s))) file_id
      = Inr (map Content results)"
    by blast
  from assms(5) b f assms(1) assign_results_complete [OF assms(4)]
  have "cur' = mutate_at t (job\<lparr>requests := with_results (requests job) results,
                                finished := True\<rparr>) cur"
    by (simp add: poll_job_def Let_def)
  with assms(6,7) show ?thesis by (simp add: mutate_at_nth)
qed

lemma drop_Cons_nth:
  assumes "drop i xs = y # ys"
  shows "i < length xs \<and> y = xs ! i \<and> ys = drop (Suc i) xs"
proof -
  from assms have i: "i < length xs" by (cases "i < length xs") auto
  from Cons_nth_drop_Suc [OF i] assms show ?thesis using i by simp
qed

lemma poll_loop_target:
  assumes "poll_loop env i rest (cur, s) = Inr (cur', s')"
    and "rest = drop i snapshot"
    and "aligned snapshot cur"
    and "distinct (map job_id snapshot)"
    and "t < length snapshot"
    and "\<not> finished (snapshot ! t)"
    and "\<forall>k. \<exists>b. batches_retrieve env k (job_id (snapshot ! t)) = Some b
              \<and> status b = js ''completed'' \<and> output_file_id b = Some file_id"
    and "\<forall>k. output_file_content env k file_id = Inr (map Content results)"
    and "length results = length (requests (snapshot ! t))"
    and "cur ! t = Some (if t < i
            then (snapshot ! t)\<lparr>requests := with_results (requests (snapshot ! t)) results,
                                 finished := True\<rparr>
            else snapshot ! t)"
  shows "aligned snapshot cur'
       \<and> cur' ! t = Some ((snapshot ! t)\<lparr>requests := with_results (requests (snapshot ! t)) results,
                                         finished := True\<rparr>)"
  using assms(1,2,3,10)
proof (induction rest arbitrary: i cur s)
  case Nil
  then have "length snapshot \<le> i" by simp
  with assms(5) have "t < i" by simp
  with Nil show ?case by simp
next
  case (Cons job rest)
  from drop_Cons_nth [OF Cons.prems(2) [symmetric]]
  have i: "i < length snapshot" and job: "job = snapshot ! i" and rest: "rest = drop (Suc i) snapshot"
    by simp_all
  from Cons.prems(1) obtain cur1 s1 where
    step: "poll_job env i job (cur, s) = Inr (cur1, s1)"
    and loop: "poll_loop env (Suc i) rest (cur1, s1) = Inr (cur', s')"
    by (auto split: sum.splits)
  have aligned1: "aligned snapshot cur1"
    using poll_job_aligned [OF Cons.prems(3) i job, of env s] step by (simp add: poll_cur_def)
  from Cons.prems(3) assms(5) have t: "t < length cur" by (simp add: aligned_length)
  have "cur1 ! t = Some (if t < Suc i
            then (snapshot ! t)\<lparr>requests := with_results (requests (snapshot ! t)) results,
                                 finished := True\<rparr>
            else snapshot ! t)"
  proof (cases "t = i")
    case True
    with Cons.prems(4) have "cur ! t = Some (snapshot ! t)" by simp
    with poll_job_target [OF assms(6,7,8,9) _ t, of s cur1 s1] step job True
    show ?thesis by simp
  next
    case False
    from poll_job_other [OF step Cons.prems(3) i job assms(4,5) False] Cons.prems(4) False
    show ?thesis by (auto simp: less_Suc_eq)
  qed
  from Cons.IH [OF loop rest aligned1 this] show ?case .
qed

lemma print_error_lines_Inl:
  "print_error_lines lines s = Inl (thrown, s') \<Longrightarrow> net_log s' = net_log s"
  using print_error_lines_net_log [of lines s "Inl (thrown, s')"] by simp

lemma print_error_lines_Inr:
  "print_error_lines lines s = Inr s' \<Longrightarrow> net_log s' = net_log s"
  using print_error_lines_net_log [of lines s "Inr s'"] by simp

lemma poll_job_calls:
  "\<exists>new. net_log (poll_state (poll_job env i job (cur, s))) = net_log s @ new
     \<and> (\<forall>x. BatchesRetrieve x \<in> set new \<longrightarrow> x = job_id job \<and> \<not> finished job)"
proof (cases "finished job")
  case True
  then show ?thesis by (simp add: poll_job_def poll_state_def)
next
  case False
  have "\<exists>more. net_log (poll_state (poll_job env i job (cur, s)))
          = net_log s @ BatchesRetrieve (job_id job) # more
        \<and> (\<forall>x. BatchesRetrieve x \<notin> set more)"
    using False
    by (auto simp: poll_job_def poll_state_def Let_def
             dest!: print_error_lines_Inl print_error_lines_Inr
             split: option.splits sum.splits prod.splits bool.splits)
  then obtain more where
    "net_log (poll_state (poll_job env i job (cur, s)))
       = net_log s @ (BatchesRetrieve (job_id job) # more)"
    "\<forall>x. BatchesRetrieve x \<notin> set more"
    by auto
  with False show ?thesis
    by (intro exI [of _ "BatchesRetrieve (job_id job) # more"]) auto
qed

lemma poll_loop_calls:
  "\<exists>new. net_log (poll_state (poll_loop env i rest (cur, s))) = net_log s @ new
     \<and> (\<forall>x. BatchesRetrieve x \<in> set new \<longrightarrow> (\<exists>j \<in> set rest. x = job_id j \<and> \<not> finished j))"
proof (induction rest arbitrary: i cur s)
  case Nil
  then show ?case by (simp add: poll_state_def)
next
  case (Cons job rest)
  from poll_job_calls [of env i job cur s] obtain new1 where
    new1: "net_log (poll_state (poll_job env i job (cur, s))) = net_log s @ new1"
      "\<forall>x. BatchesRetrieve x \<in> set new1 \<longrightarrow> x = job_id job \<and> \<not> finished job"
    by blast
  show ?case
  proof (cases "poll_job env i job (cur, s)")
    case (Inl thrown)
    with new1 show ?thesis
      by (intro exI [of _ new1]) (auto simp: poll_state_def)
  next
    case (Inr cs)
    obtain cur1 s1 where cs: "cs = (cur1, s1)" by (cases cs)
    from Cons.IH [of "Suc i" cur1 s1] obtain new2 where
      new2: "net_log (poll_state (poll_loop env (Suc i) rest (cur1, s1))) = net_log s1 @ new2"
        "\<forall>x. BatchesRetrieve x \<in> set new2 \<longrightarrow> (\<exists>j \<in> set rest. x = job_id j \<and> \<not> finished j)"
      by blast
    from Inr cs new1(1) have "net_log s1 = net_log s @ new1" by (simp add: poll_state_def)
    with Inr cs new1(2) new2 show ?thesis
      by (intro exI [of _ "new1 @ new2"]) auto
  qed
qed

lemma checkBatchStatus_calls:
  "\<exists>new. net_log (outcome_state (checkBatchStatus env s)) = net_log s @ new
     \<and> (\<forall>x. BatchesRetrieve x \<in> set new \<longrightarrow> (\<exists>j \<in> set (jobs s). x = job_id j \<and> \<not> finished j))"
proof (cases "length (pendingJobs s) = 0")
  case True
  then show ?thesis by (simp add: checkBatchStatus_def)
next
  case False
  let ?start = "s\<lparr>console := console s @ [CheckingJobs]\<rparr>"
  from poll_loop_calls [of env 0 "jobs s" "map Some (jobs s)" ?start] obtain new where
    new: "net_log (poll_state (poll_loop env 0 (jobs s) (map Some (jobs s), ?start)))
            = net_log s @ new"
      "\<forall>x. BatchesRetrieve x \<in> set new \<longrightarrow> (\<exists>j \<in> set (jobs s). x = job_id j \<and> \<not> finished j)"
    by auto
  have "net_log (outcome_state (checkBatchStatus env s))
          = net_log (poll_state (poll_loop env 0 (jobs s) (map Some (jobs s), ?start)))"
    using False
    by (simp add: checkBatchStatus_def poll_state_def split: sum.splits prod.splits)
  with new show ?thesis by auto
qed

lemma poll_loop_aligned:
  assumes "aligned snapshot cur" and "rest = drop i snapshot"
  shows "aligned snapshot (poll_cur (poll_loop env i rest (cur, s)))"
  using assms
proof (induction rest arbitrary: i cur s)
  case Nil
  then show ?case by (simp add: poll_cur_def)
next
  case (Cons job rest)
  from drop_Cons_nth [OF Cons.prems(2) [symmetric]]
  have i: "i < length snapshot" and job: "job = snapshot ! i" and rest: "rest = drop (Suc i) snapshot"
    by simp_all
  note step = poll_job_aligned [OF Cons.prems(1) i job, of env s]
  show ?case
  proof (cases "poll_job env i job (cur, s)")
    case (Inl thrown)
    with step show ?thesis by (simp add: poll_cur_def)
  next
    case (Inr cs)
    obtain cur1 s1 where cs: "cs = (cur1, s1)" by (cases cs)
    with Inr step have "aligned snapshot cur1" by (simp add: poll_cur_def)
    from Cons.IH [OF this rest, of s1] Inr cs show ?thesis by simp
  qed
qed

lemma checkBatchStatus_keeps_finished:
  assumes "\<forall>j \<in> set (jobs s). job_id j = x \<longrightarrow> finished j"
  shows "\<forall>j \<in> set (jobs (outcome_state (checkBatchStatus env s))). job_id j = x \<longrightarrow> finished j"
proof (cases "length (pendingJobs s) = 0")
  case True
  with assms show ?thesis by (simp add: checkBatchStatus_def)
next
  case False
  let ?start = "s\<lparr>console := console s @ [CheckingJobs]\<rparr>"
  let ?cur = "poll_cur (poll_loop env 0 (jobs s) (map Some (jobs s), ?start))"
  have "aligned (jobs s) (map Some (jobs s))"
    by (rule alignedI) simp_all
  from poll_loop_aligned [OF this, of "jobs s" 0 env ?start]
  have aligned: "aligned (jobs s) ?cur" by simp
  have jobs': "jobs (outcome_state (checkBatchStatus env s)) = current_jobs ?cur"
    using False
    by (simp add: checkBatchStatus_def poll_cur_def split: sum.splits prod.splits)
  show ?thesis
  proof (intro ballI impI)
    fix j
    assume "j \<in> set (jobs (outcome_state (checkBatchStatus env s)))" and id: "job_id j = x"
    then have "Some j \<in> set ?cur" by (simp add: jobs' set_current_jobs)
    then obtain k where k: "k < length ?cur" "?cur ! k = Some j"
      by (auto simp: in_set_conv_nth)
    with aligned_length [OF aligned] have len: "k < length (jobs s)" by simp
    from alignedD [OF aligned len k(2)] id
    have "job_id (jobs s ! k) = x" and keep: "finished (jobs s ! k) \<longrightarrow> finished j"
      by simp_all
    with assms len have "finished (jobs s ! k)" by simp
    with keep show "finished j" by simp
  qed
qed

lemma poll_cycles_keep_finished:
  assumes "\<forall>j \<in> set (jobs s). job_id j = x \<longrightarrow> finished j"
  shows "\<forall>j \<in> set (jobs (poll_cycles envs s)). job_id j = x \<longrightarrow> finished j"
  using assms
proof (induction envs arbitrary: s)
  case Nil
  then show ?case by simp
next
  case (Cons env envs)
  from Cons.IH [OF checkBatchStatus_keeps_finished [OF Cons.prems, of env]]
  show ?case by simp
qed

text \<open>Claim C7. Take a poll cycle that runs to its end, over jobs of distinct ids, and in
  it a job with \<open>finished\<close> false whose batch the remote API reports completed, with an
  output file of one record for each request of the job. After the cycle the job is in
  \<open>jobs\<close> with \<open>finished\<close> true and with the result of every request set to the record at
  the same position, and the cache file holds \<open>jobs\<close>. In every poll cycle after it,
  whatever the remote API answers in it and in the cycles before it, the job is skipped: no
  \<open>retrieve\<close> call is made for its id.\<close>

theorem completed_job_is_reconciled_once:
  assumes "checkBatchStatus env s = Inr ((), s')"
    and "t < length (jobs s)"
    and "\<not> finished (jobs s ! t)"
    and "distinct (map job_id (jobs s))"
    and "\<forall>k. \<exists>b. batches_retrieve env k (job_id (jobs s ! t)) = Some b
              \<and> status b = js ''completed'' \<and> output_file_id b = Some file_id"
    and "\<forall>k. output_file_content env k file_id = Inr (map Content results)"
    and "length results = length (requests (jobs s ! t))"
  shows "(\<exists>j' \<in> set (jobs s').
            job_id j' = job_id (jobs s ! t) \<and> finished j'
            \<and> map result (requests j') = results
            \<and> map rcontent (requests j') = map rcontent (requests (jobs s ! t)))
       \<and> cache_file s' = jobs s'
       \<and> (\<forall>envs env'. BatchesRetrieve (job_id (jobs s ! t))
              \<notin> set (drop (length (net_log (poll_cycles envs s')))
                        (net_log (outcome_state (checkBatchStatus env' (poll_cycles envs s'))))))"
proof -
  let ?job = "jobs s ! t"
  let ?job' = "?job\<lparr>requests := with_results (requests ?job) results, finished := True\<rparr>"
  let ?start = "s\<lparr>console := console s @ [CheckingJobs]\<rparr>"
  from assms(2,3) have "?job \<in> set (pendingJobs s)"
    by (simp add: pendingJobs_def)
  then have pending: "length (pendingJobs s) \<noteq> 0" by auto
  with assms(1) obtain cur s1 where
    loop: "poll_loop env 0 (jobs s) (map Some (jobs s), ?start) = Inr (cur, s1)"
    and s': "s' = s1\<lparr>jobs := current_jobs cur, cache_file := current_jobs cur\<rparr>"
    by (auto simp: checkBatchStatus_def split: sum.splits prod.splits)
  have start: "aligned (jobs s) (map Some (jobs s))"
    by (rule alignedI) simp_all
  from assms(2) have "map Some (jobs s) ! t = Some (if t < 0 then ?job' else ?job)"
    by simp
  from poll_loop_target [OF loop _ start assms(4,2,3,5,6,7) this]
  have aligned: "aligned (jobs s) cur" and target: "cur ! t = Some ?job'"
    by simp_all
  from aligned assms(2) have t: "t < length cur" by (simp add: aligned_length)
  with target have "Some ?job' \<in> set cur" by (metis nth_mem)
  then have member: "?job' \<in> set (jobs s')" by (simp add: s' set_current_jobs)
  have first: "\<exists>j' \<in> set (jobs s').
            job_id j' = job_id ?job \<and> finished j'
            \<and> map result (requests j') = results
            \<and> map rcontent (requests j') = map rcontent (requests ?job)"
    using member with_results_fields [OF assms(7)]
    by (intro bexI [of _ ?job']) simp_all
  have second: "cache_file s' = jobs s'" by (simp add: s')
  have all_finished: "\<forall>j \<in> set (jobs s'). job_id j = job_id ?job \<longrightarrow> finished j"
  proof (intro ballI impI)
    fix j
    assume "j \<in> set (jobs s')" and same: "job_id j = job_id ?job"
    then have "Some j \<in> set cur" by (simp add: s' set_current_jobs)
    then obtain k where k: "k < length cur" "cur ! k = Some j"
      by (auto simp: in_set_conv_nth)
    from aligned have "length cur = length (jobs s)"
      by (rule aligned_length)
    with k(1) have len: "k < length (jobs s)" by simp
    from alignedD [OF aligned len k(2)] have "job_id j = job_id (jobs s ! k)"
      by simp
    with same len have "map job_id (jobs s) ! k = map job_id (jobs s) ! t"
      using assms(2) by simp
    with nth_eq_iff_index_eq [OF assms(4), of k t] len assms(2) have "k = t"
      by simp
    with k target show "finished j" by auto
  qed
  have third: "BatchesRetrieve (job_id ?job)
      \<notin> set (drop (length (net_log (poll_cycles envs s')))
                (net_log (outcome_state (checkBatchStatus env' (poll_cycles envs s')))))"
    for envs env'
  proof -
    let ?later = "poll_cycles envs s'"
    from poll_cycles_keep_finished [OF all_finished, of envs]
    have later: "\<forall>j \<in> set (jobs ?later). job_id j = job_id ?job \<longrightarrow> finished j" .
    from checkBatchStatus_calls [of env' ?later] obtain new where
      new: "net_log (outcome_state (checkBatchStatus env' ?later)) = net_log ?later @ new"
        "\<forall>x. BatchesRetrieve x \<in> set new \<longrightarrow> (\<exists>j \<in> set (jobs ?later). x = job_id j \<and> \<not> finished j)"
      by blast
    from new(2) later have "BatchesRetrieve (job_id ?job) \<notin> set new" by auto
    with new(1) show ?thesis by simp
  qed
  from first second third show ?thesis by blast
qed

theorem completed_job_is_reconciled_once_witness:
  "checkBatchStatus batch_config stored_state = Inr ((), polled_state)
   \<and> (0::nat) < length (jobs stored_state)
   \<and> \<not> finished (jobs stored_state ! 0)
   \<and> distinct (map job_id (jobs stored_state))
   \<and> (\<forall>k. \<exists>b. batches_retrieve batch_config k (job_id (jobs stored_state ! 0)) = Some b
             \<and> status b = js ''completed'' \<and> output_file_id b = Some (js ''file-out''))
   \<and> (\<forall>k. output_file_content batch_config k (js ''file-out'')
            = Inr (map Content [Some (js ''1. Hola.''), Some (js ''1. Adios.'')]))
   \<and> length [Some (js ''1. Hola.''), Some (js ''1. Adios.'')] = length (requests (jobs stored_state ! 0))
   \<and> finished (jobs polled_state ! 0)
   \<and> map result (requests (jobs polled_state ! 0)) = [Some (js ''1. Hola.''), Some (js ''1. Adios.'')]
   \<and> cache_file polled_state = jobs polled_state
   \<and> (\<forall>envs env'. BatchesRetrieve (js ''batch_1'')
          \<notin> set (drop (length (net_log (poll_cycles envs polled_state)))
                    (net_log (outcome_state
                       (checkBatchStatus env' (poll_cycles envs polled_state))))))"
proof -
  have poll: "checkBatchStatus batch_config stored_state = Inr ((), polled_state)"
    by (simp add: checkBatchStatus_def pendingJobs_def poll_job_def current_jobs_def
          map_filter_simps mutate_at_def stored_state_def stored_job_def polled_state_def
          batch_config_def reports_completed_def two_results_def run_defs)
  have position: "(0::nat) < length (jobs stored_state)"
    by (simp add: stored_state_def initial_state_def)
  have active: "\<not> finished (jobs stored_state ! 0)"
    by (simp add: stored_state_def stored_job_def initial_state_def)
  have ids: "distinct (map job_id (jobs stored_state))"
    by (simp add: stored_state_def initial_state_def)
  have remote: "\<forall>k. \<exists>b. batches_retrieve batch_config k (job_id (jobs stored_state ! 0)) = Some b
             \<and> status b = js ''completed'' \<and> output_file_id b = Some (js ''file-out'')"
    by (simp add: batch_config_def reports_completed_def)
  have records: "\<forall>k. output_file_content batch_config k (js ''file-out'')
            = Inr (map Content [Some (js ''1. Hola.''), Some (js ''1. Adios.'')])"
    by (simp add: batch_config_def two_results_def)
  have count: "length [Some (js ''1. Hola.''), Some (js ''1. Adios.'')]
      = length (requests (jobs stored_state ! 0))"
    by (simp add: stored_state_def stored_job_def initial_state_def)
  have id: "job_id (jobs stored_state ! 0) = (js ''batch_1'')"
    by (simp add: stored_state_def stored_job_def initial_state_def)
  have polled: "finished (jobs polled_state ! 0)"
    "map result (requests (jobs polled_state ! 0)) = [Some (js ''1. Hola.''), Some (js ''1. Adios.'')]"
    "cache_file polled_state = jobs polled_state"
    by (simp_all add: polled_state_def stored_state_def initial_state_def)
  from completed_job_is_reconciled_once [OF poll position active ids remote records count]
  have "\<forall>envs env'. BatchesRetrieve (js ''batch_1'')
          \<notin> set (drop (length (net_log (poll_cycles envs polled_state)))
                    (net_log (outcome_state
                       (checkBatchStatus env' (poll_cycles envs polled_state)))))"
    unfolding id by blast
  with poll position active ids remote records count polled show ?thesis by blast
qed

section \<open>Properties of the file-level driver\<close>

text \<open>No activation of \<open>translate\<close> writes a subtitle file, whatever the state it starts
  from, and so none of the calls of a window does, however they overlap.\<close>

lemma translate_pass_written:
  "written (pass_state (translate_pass env s grp number)) = written s"
  using translate_pass_effect [of env grp number s] by (simp add: pass_effect_def)

text \<open>The decision of lines 397 to 406, on any segments and in any state: the file is
  written, once and with every segment, when every \<open>translatedContent\<close> is a string that is
  not empty, and the value is false; or nothing is written and the value is true.\<close>

lemma write_translation_all_or_nothing:
  assumes "write_translation outputPath matches s = (ret, s')"
  shows "(written s' = written s @ [(outputPath, render_subtitles matches)] \<and> \<not> ret
            \<and> (\<forall>m \<in> set matches. \<exists>text. translatedContent m = Some text \<and> text \<noteq> []))
         \<or> (written s' = written s \<and> ret
            \<and> (\<exists>m \<in> set matches. translatedContent m = None \<or> translatedContent m = Some []))"
proof (cases "list_all (\<lambda>m. truthy (translatedContent m)) matches")
  case True
  then have "\<forall>m \<in> set matches. \<exists>text. translatedContent m = Some text \<and> text \<noteq> []"
    by (auto simp: list_all_iff truthy_def split: option.splits)
  with assms True show ?thesis
    by (auto simp: write_translation_def)
next
  case False
  then obtain m where "m \<in> set matches" "\<not> truthy (translatedContent m)"
    unfolding list_all_iff by blast
  then have "\<exists>m \<in> set matches. translatedContent m = None \<or> translatedContent m = Some []"
    by (cases "translatedContent m") (auto simp: truthy_def intro!: bexI [of _ m])
  with assms False show ?thesis
    by (auto simp: write_translation_def)
qed

lemma translate_groups_written:
  "translate_groups env s groups = Some ((thrown, groups'), s') \<Longrightarrow> written s' = written s"
proof (induction groups arbitrary: s thrown groups' s')
  case Nil
  then show ?case by simp
next
  case (Cons grp groups)
  show ?case
  proof (cases "translate env s grp 0")
    case None
    with Cons.prems show ?thesis by simp
  next
    case (Some r)
    from translate_effect [OF Some] have w: "written (outcome_state r) = written s"
      by blast
    show ?thesis
    proof (cases r)
      case (Inl a)
      with Cons.prems Some w show ?thesis by (auto split: prod.splits)
    next
      case (Inr b)
      then obtain grp' ok s1 where b: "r = Inr ((grp', ok), s1)"
        by (metis prod.exhaust)
      with w have s1: "written s1 = written s" by simp
      from Cons.prems Some b obtain e gs s2 where
        rest: "translate_groups env s1 groups = Some ((e, gs), s2)" and "s' = s2"
        by (auto split: option.splits)
      with Cons.IH [OF rest] s1 show ?thesis by simp
    qed
  qed
qed

text \<open>With a finite \<open>MAX_TRIES\<close> every call returns or throws, and so does
  \<open>translatePath\<close>.\<close>

lemma translate_groups_returns:
  assumes "MAX_TRIES env = Finite m"
  shows "\<exists>r. translate_groups env s groups = Some r"
proof (induction groups arbitrary: s)
  case Nil
  then show ?case by simp
next
  case (Cons grp groups)
  from translate_returns [OF assms] obtain r where r: "translate env s grp 0 = Some r"
    by blast
  show ?case
  proof (cases r)
    case (Inl a)
    with r show ?thesis by (auto split: prod.splits)
  next
    case (Inr b)
    then obtain grp' ok s1 where b: "r = Inr ((grp', ok), s1)"
      by (metis prod.exhaust)
    from Cons.IH [of s1] obtain e gs s2 where "translate_groups env s1 groups = Some ((e, gs), s2)"
      by (metis prod.exhaust)
    with r b show ?thesis by simp
  qed
qed

lemma translatePath_returns:
  assumes "MAX_TRIES env = Finite m"
  shows "\<exists>r. translatePath env s matches outputPath = Some r"
proof -
  let ?groups = "groupSegmentsByTokenLength (numTokens env) matches (MAX_TOKENS env)"
  from translate_groups_returns [OF assms] obtain thrown groups' s1 where
    "translate_groups env s ?groups = Some ((thrown, groups'), s1)"
    by (metis prod.exhaust)
  then show ?thesis
    by (cases thrown) (auto simp: translatePath_def Let_def split: prod.splits)
qed

text \<open>Claim C10. \<open>translatePath\<close> writes the translated file only when the
  \<open>translatedContent\<close> of every segment is truthy, that is, present and not the empty
  string; then it writes it once, with every segment, and returns false. Otherwise it writes
  nothing: in particular when it returns true, some segment has no translation or has the
  empty string as its translation, which counts as none.\<close>

theorem output_written_only_when_all_truthy:
  assumes "translatePath env s matches outputPath = Some ((ret, matches'), s')"
  shows "(written s' = written s @ [(outputPath, render_subtitles matches')]
            \<and> ret = Some False
            \<and> (\<forall>m \<in> set matches'. \<exists>text. translatedContent m = Some text \<and> text \<noteq> []))
         \<or> (written s' = written s \<and> ret \<noteq> Some False
            \<and> (ret = Some True \<longrightarrow>
                 (\<exists>m \<in> set matches'. translatedContent m = None \<or> translatedContent m = Some [])))"
proof -
  let ?groups = "groupSegmentsByTokenLength (numTokens env) matches (MAX_TOKENS env)"
  from assms obtain thrown groups' s1 where
    run: "translate_groups env s ?groups = Some ((thrown, groups'), s1)"
    by (auto simp: translatePath_def Let_def split: option.splits)
  from translate_groups_written [OF run] have w: "written s1 = written s" .
  show ?thesis
  proof (cases thrown)
    case (Some e)
    with assms run w show ?thesis
      by (auto simp: translatePath_def Let_def)
  next
    case None
    obtain decided s2 where
      decision: "write_translation outputPath (concat groups') s1 = (decided, s2)"
      by (metis prod.exhaust)
    with assms run None have "ret = Some decided" "matches' = concat groups'" "s' = s2"
      by (simp_all add: translatePath_def Let_def)
    with write_translation_all_or_nothing [OF decision] w show ?thesis
      by auto
  qed
qed

text \<open>The answer has an empty second line: every segment is assigned a fragment, the
  second one the empty string, and the file is withheld.\<close>

theorem output_written_only_when_all_truthy_witness:
  "translatePath (example_config False (Finite 3) (always_answers ''1. Hola\<newline>\<newline>3. Adios''))
       initial_state
       [seg ''h1'' ''Hello.'', seg ''h2'' ''Hm'', seg ''h3'' ''Goodbye.''] (js ''movie.es.srt'')
     = Some ((Some True,
         [(seg ''h1'' ''Hello.'')\<lparr>translatedContent := Some (js ''Hola'')\<rparr>,
          (seg ''h2'' ''Hm'')\<lparr>translatedContent := Some []\<rparr>,
          (seg ''h3'' ''Goodbye.'')\<lparr>translatedContent := Some (js ''Adios'')\<rparr>]),
        initial_state\<lparr>net_log := [ChatCompletionsCreate (js ''1. Hello.\<newline>2. Hm\<newline>3. Goodbye.'')]\<rparr>)
   \<and> written (initial_state\<lparr>net_log := [ChatCompletionsCreate (js ''1. Hello.\<newline>2. Hm\<newline>3. Goodbye.'')]\<rparr>)
       = written initial_state
   \<and> (\<exists>m \<in> set [(seg ''h1'' ''Hello.'')\<lparr>translatedContent := Some (js ''Hola'')\<rparr>,
                     (seg ''h2'' ''Hm'')\<lparr>translatedContent := Some []\<rparr>,
                     (seg ''h3'' ''Goodbye.'')\<lparr>translatedContent := Some (js ''Adios'')\<rparr>].
          translatedContent m = None \<or> translatedContent m = Some [])"
proof -
  let ?env = "example_config False (Finite 3) (always_answers ''1. Hola\<newline>\<newline>3. Adios'')"
  let ?matches' = "[(seg ''h1'' ''Hello.'')\<lparr>translatedContent := Some (js ''Hola'')\<rparr>,
          (seg ''h2'' ''Hm'')\<lparr>translatedContent := Some []\<rparr>,
          (seg ''h3'' ''Goodbye.'')\<lparr>translatedContent := Some (js ''Adios'')\<rparr>]"
  let ?s' = "initial_state\<lparr>net_log := [ChatCompletionsCreate (js ''1. Hello.\<newline>2. Hm\<newline>3. Goodbye.'')]\<rparr>"
  have run: "translatePath ?env initial_state
       [seg ''h1'' ''Hello.'', seg ''h2'' ''Hm'', seg ''h3'' ''Goodbye.''] (js ''movie.es.srt'')
     = Some ((Some True, ?matches'), ?s')"
    by (simp add: translatePath_def write_translation_def translate.simps translate_pass_def
          truthy_def run_defs)
  from output_written_only_when_all_truthy [OF run] run
  show ?thesis by auto
qed

end
